theory Spec2Isabelle
  imports
    Complex_Main
    "HOL-Library.Multiset"
    "HOL-Library.AList"
    "HOL-Library.Char_ord"
    "HOL-Library.List_Lexorder"
    "HOL-Library.Product_Lexorder"
begin

section \<open>DiskAtlas: the scan engine and the treemap layout\<close>

text \<open>
  A shallow embedding of \<^verbatim>\<open>diskatlas/models.py\<close>, \<^verbatim>\<open>diskatlas/scanner.py\<close> and
  \<^verbatim>\<open>diskatlas/treemap.py\<close>.

  Conventions of the embedding:
  \<^item> Python \<^verbatim>\<open>int\<close> is \<^typ>\<open>int\<close>; list positions are \<^typ>\<open>nat\<close>.
  \<^item> Python \<^verbatim>\<open>str\<close> is \<^typ>\<open>string\<close>; the three non-ASCII literals of the source are
    written as their UTF-8 bytes (byte-wise comparison of UTF-8 agrees with Python's
    comparison by code point).
  \<^item> Tuples are compared as Python compares them, lexicographically.
  \<^item> An uncaught exception is a value \<open>Inl e\<close> of the result.
  \<^item> Python \<^verbatim>\<open>float\<close> is modelled by \<^typ>\<open>real\<close>. Rounding to the nearest float,
    overflow and the special values are not modelled. Underflow is: a product or a
    quotient too small for a float is \<^verbatim>\<open>0.0\<close>. A division by \<^verbatim>\<open>0.0\<close> raises, as in
    Python.
  \<^item> The progress callback and the wall clock (\<^verbatim>\<open>emit\<close>, \<^verbatim>\<open>elapsed_sec\<close>) do not
    influence any other value and are left out.
\<close>

datatype error = IndexError | ZeroDivisionError

subsection \<open>\<^verbatim>\<open>heapq\<close>: the binary min-heap the scanner uses\<close>

text \<open>
  The functions of CPython's \<^verbatim>\<open>heapq\<close> module the scanner calls, on a list used as an
  array. \<^verbatim>\<open>_siftdown\<close> moves the item at \<open>pos\<close> towards the root, \<^verbatim>\<open>_siftup\<close> moves the
  smaller child up until a leaf is reached and then sifts the item back.
\<close>

function siftdown_loop :: "'a::linorder list \<Rightarrow> 'a \<Rightarrow> nat \<Rightarrow> nat \<Rightarrow> 'a list" where
  "siftdown_loop heap newitem startpos pos =
     (if pos > startpos then
        let parentpos = (pos - 1) div 2;
            parent = heap ! parentpos
        in if newitem < parent
           then siftdown_loop (heap[pos := parent]) newitem startpos parentpos
           else heap[pos := newitem]
      else heap[pos := newitem])"
  by pat_completeness auto
termination
  by (relation "measure (\<lambda>(heap, newitem, startpos, pos). pos)") auto

definition siftdown :: "'a::linorder list \<Rightarrow> nat \<Rightarrow> nat \<Rightarrow> 'a list" where
  "siftdown heap startpos pos = siftdown_loop heap (heap ! pos) startpos pos"

function siftup_loop :: "'a::linorder list \<Rightarrow> nat \<Rightarrow> nat \<Rightarrow> nat \<Rightarrow> 'a list \<times> nat" where
  "siftup_loop heap endpos pos childpos =
     (if childpos < endpos then
        let rightpos = childpos + 1;
            childpos' = (if rightpos < endpos \<and> \<not> heap ! childpos < heap ! rightpos
                         then rightpos else childpos)
        in siftup_loop (heap[pos := heap ! childpos']) endpos childpos' (2 * childpos' + 1)
      else (heap, pos))"
  by pat_completeness auto
termination
  by (relation "measure (\<lambda>(heap, endpos, pos, childpos). endpos - childpos)") auto

definition siftup :: "'a::linorder list \<Rightarrow> nat \<Rightarrow> 'a list" where
  "siftup heap pos =
     (let endpos = length heap;
          startpos = pos;
          newitem = heap ! pos;
          (heap', pos') = siftup_loop heap endpos pos (2 * pos + 1)
      in siftdown (heap'[pos' := newitem]) startpos pos')"

definition heappush :: "'a::linorder list \<Rightarrow> 'a \<Rightarrow> 'a list" where
  "heappush heap item = siftdown (heap @ [item]) 0 (length heap)"

text \<open>\<^verbatim>\<open>heapreplace\<close> returns the item it removes together with the new heap; on an
  empty heap \<^verbatim>\<open>heap[0]\<close> raises.\<close>

definition heapreplace :: "'a::linorder list \<Rightarrow> 'a \<Rightarrow> error + ('a \<times> 'a list)" where
  "heapreplace heap item =
     (case heap of
        [] \<Rightarrow> Inl IndexError
      | returnitem # _ \<Rightarrow> Inr (returnitem, siftup (heap[0 := item]) 0))"

subsection \<open>\<^verbatim>\<open>models.py\<close>\<close>

datatype Node =
  Node (node_name: string) (node_path: string) (is_dir: bool) (node_size: int)
       (children: "Node list")

record scan_counters =
  files :: int
  dirs :: int
  bytes_scanned :: int
  ext_stats :: "(string \<times> (int \<times> int)) list"

text \<open>The dictionary \<^verbatim>\<open>ext_stats\<close> is an association list in insertion order, updated
  with \<^const>\<open>AList.update\<close> as a Python \<^verbatim>\<open>dict\<close> is.\<close>

record ScanResult = scan_counters +
  root :: Node
  top_files :: "(int \<times> string) list"
  scanned_paths :: "string list"

subsection \<open>The file system as the scanner sees it\<close>

text \<open>
  A \<^verbatim>\<open>DirEntry\<close> carries its name and path, what \<^verbatim>\<open>is_symlink()\<close> answers (\<open>None\<close>: it
  raises \<^verbatim>\<open>OSError\<close>) and what \<^verbatim>\<open>stat(follow_symlinks=...)\<close> answers: an \<^verbatim>\<open>OSError\<close>, a
  non-directory with its \<^verbatim>\<open>st_size\<close>, or a directory, together with what \<^verbatim>\<open>os.scandir\<close>
  on its path yields. \<^verbatim>\<open>os.scandir\<close> either raises at once or yields entries; the flag
  says whether the iteration raises \<^verbatim>\<open>OSError\<close> after the last of them.
\<close>

datatype dir_entry =
  DirEntry (entry_name: string) (entry_path: string) (entry_is_symlink: "bool option")
           (entry_stat: stat_result)
and stat_result =
  StatError | StatFile int | StatDir scandir_result
and scandir_result =
  ScandirError | Scandir "dir_entry list" bool

text \<open>
  The library functions the scanner calls are parameters: those of \<^verbatim>\<open>os\<close> and \<^verbatim>\<open>os.path\<close>,
  and \<^verbatim>\<open>str.lower\<close>, whose case mapping is the one of the Unicode character database.
\<close>

record os_env =
  abspath :: "string \<Rightarrow> string"
  basename :: "string \<Rightarrow> string"
  splitext :: "string \<Rightarrow> string \<times> string"
  sep :: string
  scandir :: "string \<Rightarrow> scandir_result"
  lower :: "string \<Rightarrow> string"

subsection \<open>String helpers\<close>

definition rstrip :: "string \<Rightarrow> string \<Rightarrow> string" where
  "rstrip s chars = rev (dropWhile (\<lambda>c. c \<in> set chars) (rev s))"

fun join :: "string \<Rightarrow> string list \<Rightarrow> string" where
  "join d [] = []"
| "join d [x] = x"
| "join d (x # y # ys) = x @ d @ join d (y # ys)"

function str_nat :: "nat \<Rightarrow> string" where
  "str_nat n =
     (if n < 10 then [char_of (48 + n)]
      else str_nat (n div 10) @ [char_of (48 + n mod 10)])"
  by pat_completeness auto
termination
  by (relation "measure id") auto

definition str_int :: "int \<Rightarrow> string" where
  "str_int i = (if i < 0 then CHR ''-'' # str_nat (nat (- i)) else str_nat (nat i))"

text \<open>The literals \<^verbatim>\<open>"<no extension>"\<close>, \<^verbatim>\<open>"... other files ("\<close> and \<^verbatim>\<open>"This computer"\<close>
  of the source (in Russian there), as UTF-8 bytes.\<close>

definition no_ext_key :: string where
  "no_ext_key =
     [CHR 0x3C, CHR 0xD0, CHR 0xB1, CHR 0xD0, CHR 0xB5, CHR 0xD0, CHR 0xB7, CHR 0x20,
      CHR 0xD1, CHR 0x80, CHR 0xD0, CHR 0xB0, CHR 0xD1, CHR 0x81, CHR 0xD1, CHR 0x88,
      CHR 0xD0, CHR 0xB8, CHR 0xD1, CHR 0x80, CHR 0xD0, CHR 0xB5, CHR 0xD0, CHR 0xBD,
      CHR 0xD0, CHR 0xB8, CHR 0xD1, CHR 0x8F, CHR 0x3E]"

definition other_files_prefix :: string where
  "other_files_prefix =
     [CHR 0xE2, CHR 0x80, CHR 0xA6, CHR 0x20, CHR 0xD0, CHR 0xB4, CHR 0xD1, CHR 0x80,
      CHR 0xD1, CHR 0x83, CHR 0xD0, CHR 0xB3, CHR 0xD0, CHR 0xB8, CHR 0xD0, CHR 0xB5,
      CHR 0x20, CHR 0xD1, CHR 0x84, CHR 0xD0, CHR 0xB0, CHR 0xD0, CHR 0xB9, CHR 0xD0,
      CHR 0xBB, CHR 0xD1, CHR 0x8B, CHR 0x20, CHR 0x28]"

definition this_computer :: string where
  "this_computer =
     [CHR 0xD0, CHR 0xAD, CHR 0xD1, CHR 0x82, CHR 0xD0, CHR 0xBE, CHR 0xD1, CHR 0x82,
      CHR 0x20, CHR 0xD0, CHR 0xBA, CHR 0xD0, CHR 0xBE, CHR 0xD0, CHR 0xBC, CHR 0xD0,
      CHR 0xBF, CHR 0xD1, CHR 0x8C, CHR 0xD1, CHR 0x8E, CHR 0xD1, CHR 0x82, CHR 0xD0,
      CHR 0xB5, CHR 0xD1, CHR 0x80]"

subsection \<open>\<^verbatim>\<open>scanner.py\<close>\<close>

definition DEFAULT_TOP_FILES_PER_DIR :: int where
  "DEFAULT_TOP_FILES_PER_DIR = 80"

definition DEFAULT_GLOBAL_TOP_FILES :: int where
  "DEFAULT_GLOBAL_TOP_FILES = 400"

definition push_top ::
  "(int \<times> string) list \<Rightarrow> int \<times> string \<Rightarrow> int \<Rightarrow> error + (int \<times> string) list" where
  "push_top heap item limit =
     (if limit \<le> 0 then Inr heap
      else if int (length heap) < limit then Inr (heappush heap item)
      else (case heap of
              [] \<Rightarrow> Inl IndexError
            | smallest # _ \<Rightarrow>
                if fst item > fst smallest
                then (case heapreplace heap item of
                        Inl e \<Rightarrow> Inl e
                      | Inr (returnitem, heap') \<Rightarrow> Inr heap')
                else Inr heap))"

text \<open>The keyword arguments of \<^verbatim>\<open>scan_paths\<close>. The cancellation predicate is polled many
  times and may answer differently each time: \<open>Some f\<close> answers \<open>f k\<close> at its \<open>k\<close>-th
  call, \<open>None\<close> is the absent predicate.\<close>

record scan_opts =
  cancel_flag :: "(nat \<Rightarrow> bool) option"
  follow_symlinks :: bool
  top_files_per_dir :: int
  global_top_files :: int

text \<open>The variables \<^verbatim>\<open>scan_dir\<close> shares with \<^verbatim>\<open>scan_paths\<close>, and the number of calls of
  the cancellation predicate so far.\<close>

record scan_state = scan_counters +
  global_top :: "(int \<times> string) list"
  polls :: nat

text \<open>The local variables of one call of \<^verbatim>\<open>scan_dir\<close>.\<close>

record dir_locals =
  node :: Node
  local_top :: "(int \<times> string \<times> string) list"
  local_files_count :: int
  local_other_bytes :: int

text \<open>\<^verbatim>\<open>cancel_flag and cancel_flag()\<close>\<close>

definition cancelled :: "scan_opts \<Rightarrow> scan_state \<Rightarrow> bool \<times> scan_state" where
  "cancelled opts s =
     (case cancel_flag opts of
        None \<Rightarrow> (False, s)
      | Some f \<Rightarrow> (f (polls s), s\<lparr>polls := polls s + 1\<rparr>))"

definition add_size :: "Node \<Rightarrow> int \<Rightarrow> Node" where
  "add_size n d = Node (node_name n) (node_path n) (is_dir n) (node_size n + d) (children n)"

definition append_child :: "Node \<Rightarrow> Node \<Rightarrow> Node" where
  "append_child n c =
     Node (node_name n) (node_path n) (is_dir n) (node_size n) (children n @ [c])"

text \<open>\<^verbatim>\<open>os.path.basename(p.rstrip("\\/")) or p\<close>\<close>

definition display_name :: "os_env \<Rightarrow> string \<Rightarrow> string" where
  "display_name os p =
     (let b = basename os (rstrip p [CHR 0x5C, CHR ''/'']) in if b = [] then p else b)"

text \<open>\<^verbatim>\<open>os.path.splitext(entry.name)[1].lower() or "<no extension>"\<close>\<close>

definition ext_key :: "os_env \<Rightarrow> string \<Rightarrow> string" where
  "ext_key os nm =
     (let ext = lower os (snd (splitext os nm)) in if ext = [] then no_ext_key else ext)"

definition ext_add ::
  "(string \<times> (int \<times> int)) list \<Rightarrow> string \<Rightarrow> int \<Rightarrow> (string \<times> (int \<times> int)) list" where
  "ext_add stats ext sz =
     (let (b, c) = (case map_of stats ext of None \<Rightarrow> (0, 0) | Some bc \<Rightarrow> bc)
      in AList.update ext (b + sz, c + 1) stats)"

text \<open>The branch of the loop body for an entry that is not a directory.\<close>

definition scan_file ::
  "os_env \<Rightarrow> scan_opts \<Rightarrow> string \<Rightarrow> string \<Rightarrow> int \<Rightarrow> dir_locals \<Rightarrow> scan_state
     \<Rightarrow> error + (dir_locals \<times> scan_state)" where
  "scan_file os opts nm pth sz l s =
     (let s1 = s\<lparr>files := files s + 1, bytes_scanned := bytes_scanned s + sz,
                 ext_stats := ext_add (ext_stats s) (ext_key os nm) sz\<rparr>;
          l1 = l\<lparr>local_files_count := local_files_count l + 1, node := add_size (node l) sz\<rparr>
      in case push_top (global_top s1) (sz, pth) (global_top_files opts) of
           Inl e \<Rightarrow> Inl e
         | Inr g \<Rightarrow>
             let s2 = s1\<lparr>global_top := g\<rparr>
             in if top_files_per_dir opts > 0 then
                  if int (length (local_top l1)) < top_files_per_dir opts
                  then Inr (l1\<lparr>local_top := heappush (local_top l1) (sz, nm, pth)\<rparr>, s2)
                  else (case local_top l1 of
                          [] \<Rightarrow> Inl IndexError
                        | smallest # _ \<Rightarrow>
                            if sz > fst smallest
                            then (case heapreplace (local_top l1) (sz, nm, pth) of
                                    Inl e \<Rightarrow> Inl e
                                  | Inr (returnitem, heap') \<Rightarrow>
                                      Inr (l1\<lparr>local_top := heap'\<rparr>, s2))
                            else Inr (l1\<lparr>local_other_bytes := local_other_bytes l1 + sz\<rparr>, s2))
                else Inr (l1\<lparr>local_other_bytes := local_other_bytes l1 + sz\<rparr>, s2))"

text \<open>The end of \<^verbatim>\<open>scan_dir\<close>, after the loop: the retained files, largest first, then
  the overflow node.\<close>

definition other_files_node :: "string \<Rightarrow> int \<Rightarrow> int \<Rightarrow> Node" where
  "other_files_node dir_path other_count other_bytes =
     Node (other_files_prefix @ str_int other_count @ '')'') dir_path False other_bytes []"

definition finish_dir :: "string \<Rightarrow> dir_locals \<Rightarrow> Node" where
  "finish_dir dir_path l =
     (let node1 =
            (if local_top l \<noteq> [] then
               foldl append_child (node l)
                 (map (\<lambda>(sz, nm, pth). Node nm pth False sz [])
                    (sort_key (\<lambda>x. - fst x) (local_top l)))
             else node l);
          other_count = max 0 (local_files_count l - int (length (local_top l)))
      in if other_count > 0 \<and> local_other_bytes l > 0
         then append_child node1 (other_files_node dir_path other_count (local_other_bytes l))
         else node1)"

text \<open>The first \<^verbatim>\<open>try\<close> of the loop body: the entry is passed over when
  \<^verbatim>\<open>entry.is_symlink()\<close> raises \<^verbatim>\<open>OSError\<close>, and when it is a symbolic link and links are
  not followed.\<close>

definition skips :: "scan_opts \<Rightarrow> bool option \<Rightarrow> bool" where
  "skips opts symlink =
     (case symlink of None \<Rightarrow> True | Some b \<Rightarrow> b \<and> \<not> follow_symlinks opts)"

text \<open>
  \<^verbatim>\<open>scan_dir\<close> and its loop over the entries. The loop returns the locals, whether it was
  left by \<^verbatim>\<open>break\<close>, and the state. An \<^verbatim>\<open>OSError\<close> of the directory iteration is caught
  by the handler around the loop, which returns the node as it is at that moment.
\<close>

fun scan_dir ::
  "os_env \<Rightarrow> scan_opts \<Rightarrow> string \<Rightarrow> scandir_result \<Rightarrow> scan_state \<Rightarrow> error + (Node \<times> scan_state)"
and scan_loop ::
  "os_env \<Rightarrow> scan_opts \<Rightarrow> string \<Rightarrow> dir_entry list \<Rightarrow> dir_locals \<Rightarrow> scan_state
     \<Rightarrow> error + (dir_locals \<times> bool \<times> scan_state)"
where
  "scan_dir os opts dir_path listing s =
     (let node0 = Node (display_name os dir_path) dir_path True 0 [];
          (c, s1) = cancelled opts s
      in if c then Inr (node0, s1)
         else (case listing of
                 ScandirError \<Rightarrow> Inr (node0, s1)
               | Scandir entries fails \<Rightarrow>
                   (case scan_loop os opts dir_path entries
                           \<lparr>node = node0, local_top = [], local_files_count = 0,
                            local_other_bytes = 0\<rparr> s1 of
                      Inl e \<Rightarrow> Inl e
                    | Inr (l, broke, s2) \<Rightarrow>
                        if fails \<and> \<not> broke then Inr (node l, s2)
                        else Inr (finish_dir dir_path l, s2))))"
| "scan_loop os opts dir_path [] l s = Inr (l, False, s)"
| "scan_loop os opts dir_path (DirEntry nm pth symlink st # rest) l s =
     (let (c, s1) = cancelled opts s
      in if c then Inr (l, True, s1)
         else if skips opts symlink then scan_loop os opts dir_path rest l s1
         else (case st of
                 StatError \<Rightarrow> scan_loop os opts dir_path rest l s1
               | StatDir sub \<Rightarrow>
                   (case scan_dir os opts pth sub (s1\<lparr>dirs := dirs s1 + 1\<rparr>) of
                      Inl e \<Rightarrow> Inl e
                    | Inr (child, s2) \<Rightarrow>
                        scan_loop os opts dir_path rest
                          (l\<lparr>node := add_size (append_child (node l) child) (node_size child)\<rparr>)
                          s2)
               | StatFile sz \<Rightarrow>
                   (case scan_file os opts nm pth sz l s1 of
                      Inl e \<Rightarrow> Inl e
                    | Inr (l', s2) \<Rightarrow> scan_loop os opts dir_path rest l' s2)))"

text \<open>The loop of \<^verbatim>\<open>scan_paths\<close> over the root paths.\<close>

fun scan_roots ::
  "os_env \<Rightarrow> scan_opts \<Rightarrow> string list \<Rightarrow> Node \<Rightarrow> scan_state \<Rightarrow> error + (Node \<times> scan_state)" where
  "scan_roots os opts [] root_node s = Inr (root_node, s)"
| "scan_roots os opts (p # ps) root_node s =
     (let (c, s1) = cancelled opts s
      in if c then Inr (root_node, s1)
         else (case scan_dir os opts p (scandir os p) s1 of
                 Inl e \<Rightarrow> Inl e
               | Inr (child, s2) \<Rightarrow>
                   scan_roots os opts ps
                     (add_size (append_child root_node child) (node_size child)) s2))"

definition normalize_paths :: "os_env \<Rightarrow> string list \<Rightarrow> string list" where
  "normalize_paths os paths =
     map (\<lambda>p. if length p = 3 \<and> p ! 1 = CHR '':''
              then rstrip p [CHR 0x5C, CHR ''/''] @ sep os else p)
       (map (abspath os) (filter (\<lambda>p. p \<noteq> []) paths))"

definition root_name :: "os_env \<Rightarrow> string list \<Rightarrow> error + string" where
  "root_name os paths =
     (if length paths > 1 then Inr this_computer
      else (case paths of
              [] \<Rightarrow> Inl IndexError
            | p0 # _ \<Rightarrow> Inr (display_name os p0)))"

definition scan_paths :: "os_env \<Rightarrow> string list \<Rightarrow> scan_opts \<Rightarrow> error + ScanResult" where
  "scan_paths os paths0 opts =
     (let paths = normalize_paths os paths0
      in case root_name os paths of
           Inl e \<Rightarrow> Inl e
         | Inr name \<Rightarrow>
             (case scan_roots os opts paths
                     (Node name (join '';'' paths) True 0 [])
                     \<lparr>files = 0, dirs = 0, bytes_scanned = 0, ext_stats = [],
                      global_top = [], polls = 0\<rparr> of
                Inl e \<Rightarrow> Inl e
              | Inr (root_node, s) \<Rightarrow>
                  Inr \<lparr>files = files s, dirs = dirs s, bytes_scanned = bytes_scanned s,
                       ext_stats = ext_stats s, root = root_node,
                       top_files = sort_key (\<lambda>x. - fst x) (global_top s),
                       scanned_paths = paths\<rparr>))"

subsection \<open>A POSIX instance of the library functions, for concrete runs\<close>

definition posix_basename :: "string \<Rightarrow> string" where
  "posix_basename p = rev (takeWhile (\<lambda>c. c \<noteq> CHR ''/'') (rev p))"

text \<open>\<^verbatim>\<open>posixpath.splitext\<close>: the extension starts at the last dot of the last component,
  unless only dots precede it there.\<close>

definition posix_splitext :: "string \<Rightarrow> string \<times> string" where
  "posix_splitext p =
     (let b = posix_basename p;
          e = rev (takeWhile (\<lambda>c. c \<noteq> CHR ''.'') (rev b))
      in if length e < length b \<and> (\<exists>c \<in> set (take (length b - length e - 1) b). c \<noteq> CHR ''.'')
         then (take (length p - length e - 1) p, drop (length p - length e - 1) p)
         else (p, []))"

text \<open>
  \<^verbatim>\<open>str.lower\<close> on a string of ASCII characters, where it maps the letters \<^verbatim>\<open>A\<close> to \<^verbatim>\<open>Z\<close>
  to \<^verbatim>\<open>a\<close> to \<^verbatim>\<open>z\<close> and nothing else. The concrete runs below use ASCII names only; no
  general statement depends on this instance.
\<close>

definition ascii_lower_char :: "char \<Rightarrow> char" where
  "ascii_lower_char c =
     (if CHR ''A'' \<le> c \<and> c \<le> CHR ''Z'' then char_of (of_char c + (32::nat)) else c)"

definition ascii_lower :: "string \<Rightarrow> string" where
  "ascii_lower s = map ascii_lower_char s"

definition posix :: "(string \<Rightarrow> scandir_result) \<Rightarrow> os_env" where
  "posix fs = \<lparr>abspath = (\<lambda>p. p), basename = posix_basename, splitext = posix_splitext,
               sep = ''/'', scandir = fs, lower = ascii_lower\<rparr>"

definition default_opts :: scan_opts where
  "default_opts = \<lparr>cancel_flag = None, follow_symlinks = False,
                   top_files_per_dir = DEFAULT_TOP_FILES_PER_DIR,
                   global_top_files = DEFAULT_GLOBAL_TOP_FILES\<rparr>"

text \<open>A regular file entry of the directory \<open>d\<close>.\<close>

definition file_entry :: "string \<Rightarrow> string \<Rightarrow> int \<Rightarrow> dir_entry" where
  "file_entry d nm sz = DirEntry nm (d @ ''/'' @ nm) (Some False) (StatFile sz)"

subsection \<open>\<^verbatim>\<open>treemap.py\<close>\<close>

datatype Rect = Rect (rect_x: real) (rect_y: real) (rect_w: real) (rect_h: real)

text \<open>\<^verbatim>\<open>_worst\<close> answers \<^verbatim>\<open>float("inf")\<close> on an empty row.\<close>

datatype ratio = Infinity | Finite real

fun ratio_gt :: "ratio \<Rightarrow> ratio \<Rightarrow> bool" where
  "ratio_gt (Finite a) (Finite b) = (a > b)"
| "ratio_gt Infinity (Finite b) = True"
| "ratio_gt a Infinity = False"

text \<open>
  The smallest positive float is 2 to the power -1074. Rounding to nearest, ties to
  even, makes \<^verbatim>\<open>0.0\<close> of every result whose magnitude is at most half of it: this is
  what \<^verbatim>\<open>x * y\<close> and \<^verbatim>\<open>x / y\<close> return for such a product or quotient. Sums and
  differences of floats do not underflow.
\<close>

definition underflow :: "real \<Rightarrow> real" where
  "underflow r = (if \<bar>r\<bar> \<le> 1 / 2 ^ 1075 then 0 else r)"

definition float_mul :: "real \<Rightarrow> real \<Rightarrow> real" where
  "float_mul x y = underflow (x * y)"

text \<open>\<^verbatim>\<open>x / y\<close> for \<^verbatim>\<open>y\<close> other than \<^verbatim>\<open>0.0\<close>; every division of the source is either
  guarded by a test of its divisor or raises \<^verbatim>\<open>ZeroDivisionError\<close> on \<^verbatim>\<open>0.0\<close>.\<close>

definition float_div :: "real \<Rightarrow> real \<Rightarrow> real" where
  "float_div x y = underflow (x / y)"

definition normalize_sizes :: "Node list \<Rightarrow> real \<Rightarrow> real list" where
  "normalize_sizes nodes area =
     (let t = sum_list (map (\<lambda>n. max 0 (node_size n)) nodes);
          total = (if t = 0 then 1 else t)
      in map (\<lambda>n. float_div (float_mul (real_of_int (max 0 (node_size n))) area)
                    (real_of_int total)) nodes)"

definition worst :: "real list \<Rightarrow> real \<Rightarrow> error + ratio" where
  "worst row w =
     (if row = [] then Inr Infinity
      else
        let s = sum_list row;
            rmax = Max (set row);
            rmin = Min (set row);
            w2 = float_mul w w
        in if float_mul s s = 0 \<or> float_mul w2 rmin = 0 then Inl ZeroDivisionError
           else Inr (Finite (max (float_div (float_mul w2 rmax) (float_mul s s))
                                 (float_div (float_mul s s) (float_mul w2 rmin)))))"

text \<open>The two loops of \<^verbatim>\<open>_layout_row\<close>: the items of a row side by side from \<open>x\<close> on
  (all of height \<open>h\<close>), or one below the other from \<open>y\<close> on (all of width \<open>w\<close>).\<close>

fun place_across :: "real list \<Rightarrow> real \<Rightarrow> real \<Rightarrow> real \<Rightarrow> Rect list" where
  "place_across [] x y h = []"
| "place_across (a # row) x y h =
     (let w = (if h > 0 then float_div a h else 0)
      in Rect x y w h # place_across row (x + w) y h)"

fun place_down :: "real list \<Rightarrow> real \<Rightarrow> real \<Rightarrow> real \<Rightarrow> Rect list" where
  "place_down [] x y w = []"
| "place_down (a # row) x y w =
     (let h = (if w > 0 then float_div a w else 0)
      in Rect x y w h # place_down row x (y + h) w)"

definition layout_row :: "real list \<Rightarrow> Rect \<Rightarrow> bool \<Rightarrow> Rect list \<times> Rect" where
  "layout_row row rect horizontal =
     (let s = sum_list row
      in if horizontal then
           let h = (if rect_w rect > 0 then float_div s (rect_w rect) else 0)
           in (place_across row (rect_x rect) (rect_y rect) h,
               Rect (rect_x rect) (rect_y rect + h) (rect_w rect) (max 0 (rect_h rect - h)))
         else
           let w = (if rect_h rect > 0 then float_div s (rect_h rect) else 0)
           in (place_down row (rect_x rect) (rect_y rect) w,
               Rect (rect_x rect + w) (rect_y rect) (max 0 (rect_w rect - w)) (rect_h rect)))"

text \<open>The test \<^verbatim>\<open>row and _worst(new_row, short) > _worst(row, short)\<close>.\<close>

definition row_gets_worse :: "real list \<Rightarrow> real list \<Rightarrow> real \<Rightarrow> error + bool" where
  "row_gets_worse row new_row short =
     (if row = [] then Inr False
      else (case worst new_row short of
              Inl e \<Rightarrow> Inl e
            | Inr wn \<Rightarrow>
                (case worst row short of
                   Inl e \<Rightarrow> Inl e
                 | Inr wo \<Rightarrow> Inr (ratio_gt wn wo))))"

text \<open>The \<^verbatim>\<open>while\<close> loop of \<^verbatim>\<open>squarify\<close>; it returns the variables the code after the
  loop reads.\<close>

function squarify_loop ::
  "Node list \<Rightarrow> real list \<Rightarrow> nat \<Rightarrow> real list \<Rightarrow> Node list \<Rightarrow> Rect \<Rightarrow> (Rect \<times> Node) list
     \<Rightarrow> error + (real list \<times> Node list \<times> Rect \<times> (Rect \<times> Node) list)" where
  "squarify_loop nodes areas i row row_nodes remaining out =
     (if i < length nodes then
        let a = areas ! i;
            n = nodes ! i;
            m = min (rect_w remaining) (rect_h remaining);
            short = (if m = 0 then 1 else m);
            new_row = row @ [a]
        in (case row_gets_worse row new_row short of
              Inl e \<Rightarrow> Inl e
            | Inr True \<Rightarrow>
                let horizontal = (rect_w remaining \<ge> rect_h remaining);
                    (laid, remaining') = layout_row row remaining horizontal
                in squarify_loop nodes areas i [] [] remaining' (out @ zip laid row_nodes)
            | Inr False \<Rightarrow>
                squarify_loop nodes areas (i + 1) (row @ [a]) (row_nodes @ [n]) remaining out)
      else Inr (row, row_nodes, remaining, out))"
  by pat_completeness auto
termination
proof (relation "measure (\<lambda>(nodes, areas, i, row, row_nodes, remaining, out).
                   2 * (length nodes - i) + (if row = [] then 0 else 1))", goal_cases)
  case 1
  show ?case by simp
next
  case (2 nodes areas i row row_nodes remaining out a n m short new_row b horizontal p laid remaining')
  then have "row \<noteq> []" by (auto simp: row_gets_worse_def)
  then show ?case by simp
next
  case 3
  then show ?case by auto
qed

definition squarify ::
  "Node list \<Rightarrow> real \<Rightarrow> real \<Rightarrow> real \<Rightarrow> real \<Rightarrow> error + (Rect \<times> Node) list" where
  "squarify nodes0 x y w h =
     (let nodes = sort_key (\<lambda>n. - node_size n) (filter (\<lambda>n. node_size n > 0) nodes0);
          rect = Rect x y w h;
          areas = normalize_sizes nodes (float_mul w h)
      in case squarify_loop nodes areas 0 [] [] rect [] of
           Inl e \<Rightarrow> Inl e
         | Inr (row, row_nodes, remaining, out) \<Rightarrow>
             if row \<noteq> [] then
               let horizontal = (rect_w remaining \<ge> rect_h remaining);
                   (laid, remaining') = layout_row row remaining horizontal
               in Inr (out @ zip laid row_nodes)
             else Inr out)"

subsection \<open>Concrete file systems and children lists, for concrete runs\<close>

text \<open>The directory \<^verbatim>\<open>/d\<close> with 81 files named \<^verbatim>\<open>1\<close> to \<^verbatim>\<open>81\<close>, the file \<open>i\<close> of size \<open>i\<close>,
  listed by increasing size; no other path exists.\<close>

definition ascending_dir :: "string \<Rightarrow> scandir_result" where
  "ascending_dir p =
     (if p = ''/d'' then Scandir (map (\<lambda>i. file_entry ''/d'' (str_int i) i) [1..81]) False
      else ScandirError)"

definition dir_summary :: "ScanResult \<Rightarrow> int \<times> int \<times> nat" where
  "dir_summary r =
     (let d = hd (children (root r))
      in (node_size d, sum_list (map node_size (children d)), length (children d)))"

text \<open>The directory \<^verbatim>\<open>/d\<close> with a file of 5 bytes and an empty file.\<close>

definition empty_file_dir :: "string \<Rightarrow> scandir_result" where
  "empty_file_dir p =
     (if p = ''/d'' then Scandir [file_entry ''/d'' ''a'' 5, file_entry ''/d'' ''b'' 0] False
      else ScandirError)"

definition keep_one :: scan_opts where
  "keep_one = default_opts\<lparr>top_files_per_dir := 1\<rparr>"

definition nothing_exists :: "string \<Rightarrow> scandir_result" where
  "nothing_exists p = ScandirError"

text \<open>The directory \<^verbatim>\<open>/d\<close> with one file, and the empty directory \<^verbatim>\<open>/d\<close>.\<close>

definition one_file_dir :: "string \<Rightarrow> scandir_result" where
  "one_file_dir p =
     (if p = ''/d'' then Scandir [file_entry ''/d'' ''a.txt'' 7] False else ScandirError)"

definition empty_dir :: "string \<Rightarrow> scandir_result" where
  "empty_dir p = (if p = ''/d'' then Scandir [] False else ScandirError)"

definition cancel_at_once :: "nat \<Rightarrow> bool" where
  "cancel_at_once k = True"

definition cancel_from_second_poll :: "nat \<Rightarrow> bool" where
  "cancel_from_second_poll k = (k \<ge> 1)"

definition cancelling :: "(nat \<Rightarrow> bool) \<Rightarrow> scan_opts" where
  "cancelling f = default_opts\<lparr>cancel_flag := Some f\<rparr>"

definition leaf :: "string \<Rightarrow> int \<Rightarrow> Node" where
  "leaf nm sz = Node nm (''/d/'' @ nm) False sz []"

text \<open>The directory \<^verbatim>\<open>/d\<close> with two files, a subdirectory with two files, a symbolic
  link and an entry whose \<^verbatim>\<open>stat\<close> fails.\<close>

definition sample_tree :: "string \<Rightarrow> scandir_result" where
  "sample_tree p =
     (if p = ''/d'' then
        Scandir
          [file_entry ''/d'' ''a.TXT'' 5,
           DirEntry ''sub'' ''/d/sub'' (Some False)
             (StatDir (Scandir [file_entry ''/d/sub'' ''b.txt'' 3, file_entry ''/d/sub'' ''c'' 2]
                         False)),
           DirEntry ''link'' ''/d/link'' (Some True) (StatFile 9),
           DirEntry ''gone'' ''/d/gone'' (Some False) StatError,
           file_entry ''/d'' ''e.txt'' 1]
          False
      else ScandirError)"

text \<open>What the scan of \<^verbatim>\<open>/d\<close> in \<^const>\<open>sample_tree\<close> returns with the default options, and a
  state of the scan with two files of the subdirectory counted.\<close>

definition sample_result :: ScanResult where
  "sample_result =
     \<lparr>files = 4, dirs = 1, bytes_scanned = 11,
      ext_stats = [(''.txt'', 9, 3), (no_ext_key, 2, 1)],
      root = Node ''d'' ''/d'' True 11
               [Node ''d'' ''/d'' True 11
                  [Node ''sub'' ''/d/sub'' True 5
                     [Node ''b.txt'' ''/d/sub/b.txt'' False 3 [],
                      Node ''c'' ''/d/sub/c'' False 2 []],
                   Node ''a.TXT'' ''/d/a.TXT'' False 5 [],
                   Node ''e.txt'' ''/d/e.txt'' False 1 []]],
      top_files = [(5, ''/d/a.TXT''), (3, ''/d/sub/b.txt''), (2, ''/d/sub/c''), (1, ''/d/e.txt'')],
      scanned_paths = [''/d'']\<rparr>"

definition sample_state :: scan_state where
  "sample_state =
     \<lparr>files = 2, dirs = 1, bytes_scanned = 5, ext_stats = [(''.txt'', 3, 1), (no_ext_key, 2, 1)],
      global_top = [(2, ''/d/sub/c''), (3, ''/d/sub/b.txt'')], polls = 0\<rparr>"

definition sample_locals_after :: dir_locals where
  "sample_locals_after =
     \<lparr>node = Node ''d'' ''/d'' True 5 [], local_top = [(5, ''a.TXT'', ''/d/a.TXT'')],
      local_files_count = 1, local_other_bytes = 0\<rparr>"

definition sample_state_after :: scan_state where
  "sample_state_after =
     \<lparr>files = 3, dirs = 1, bytes_scanned = 10,
      ext_stats = [(''.txt'', 8, 2), (no_ext_key, 2, 1)],
      global_top = [(2, ''/d/sub/c''), (3, ''/d/sub/b.txt''), (5, ''/d/a.TXT'')], polls = 0\<rparr>"

text \<open>The same scan with a global limit of two files.\<close>

definition top_two :: scan_opts where
  "top_two = default_opts\<lparr>global_top_files := 2\<rparr>"

definition sample_result_top_two :: ScanResult where
  "sample_result_top_two =
     sample_result\<lparr>top_files := [(5, ''/d/a.TXT''), (3, ''/d/sub/b.txt'')]\<rparr>"

text \<open>A hundred files of the sizes 100 down to 1, listed in this order.\<close>

definition hundred_files :: "dir_entry list" where
  "hundred_files = map (\<lambda>i. file_entry ''/d'' (str_int i) i) (rev [1..100])"
subsection \<open>The row layout as the specification words it\<close>

text \<open>
  The specification lays a finished row out along the shorter side of the remaining
  rectangle, the side the worst ratio is computed against: the items go side by side
  when the width is the shorter side, one below the other when the height is.
  \<open>spec_squarify\<close> is \<^const>\<open>squarify\<close> with that choice and nothing else changed.
\<close>

definition spec_horizontal :: "Rect \<Rightarrow> bool" where
  "spec_horizontal remaining = (rect_w remaining \<le> rect_h remaining)"

function spec_squarify_loop ::
  "Node list \<Rightarrow> real list \<Rightarrow> nat \<Rightarrow> real list \<Rightarrow> Node list \<Rightarrow> Rect \<Rightarrow> (Rect \<times> Node) list
     \<Rightarrow> error + (real list \<times> Node list \<times> Rect \<times> (Rect \<times> Node) list)" where
  "spec_squarify_loop nodes areas i row row_nodes remaining out =
     (if i < length nodes then
        let a = areas ! i;
            n = nodes ! i;
            m = min (rect_w remaining) (rect_h remaining);
            short = (if m = 0 then 1 else m);
            new_row = row @ [a]
        in (case row_gets_worse row new_row short of
              Inl e \<Rightarrow> Inl e
            | Inr True \<Rightarrow>
                let (laid, remaining') = layout_row row remaining (spec_horizontal remaining)
                in spec_squarify_loop nodes areas i [] [] remaining' (out @ zip laid row_nodes)
            | Inr False \<Rightarrow>
                spec_squarify_loop nodes areas (i + 1) (row @ [a]) (row_nodes @ [n])
                  remaining out)
      else Inr (row, row_nodes, remaining, out))"
  by pat_completeness auto
termination
proof (relation "measure (\<lambda>(nodes, areas, i, row, row_nodes, remaining, out).
                   2 * (length nodes - i) + (if row = [] then 0 else 1))", goal_cases)
  case 1
  show ?case by simp
next
  case (2 nodes areas i row row_nodes remaining out a n m short new_row b p laid remaining')
  then have "row \<noteq> []" by (auto simp: row_gets_worse_def)
  then show ?case by simp
next
  case 3
  then show ?case by auto
qed

definition spec_squarify ::
  "Node list \<Rightarrow> real \<Rightarrow> real \<Rightarrow> real \<Rightarrow> real \<Rightarrow> error + (Rect \<times> Node) list" where
  "spec_squarify nodes0 x y w h =
     (let nodes = sort_key (\<lambda>n. - node_size n) (filter (\<lambda>n. node_size n > 0) nodes0);
          areas = normalize_sizes nodes (float_mul w h)
      in case spec_squarify_loop nodes areas 0 [] [] (Rect x y w h) [] of
           Inl e \<Rightarrow> Inl e
         | Inr (row, row_nodes, remaining, out) \<Rightarrow>
             if row \<noteq> [] then
               let (laid, remaining') = layout_row row remaining (spec_horizontal remaining)
               in Inr (out @ zip laid row_nodes)
             else Inr out)"

subsection \<open>Notions used in the statements\<close>

text \<open>The heap invariant of \<^verbatim>\<open>heapq\<close>: no item is smaller than its parent.\<close>

definition heap_inv :: "'a::linorder list \<Rightarrow> bool" where
  "heap_inv h \<longleftrightarrow> (\<forall>i. 0 < i \<and> i < length h \<longrightarrow> h ! ((i - 1) div 2) \<le> h ! i)"

text \<open>The area of a rectangle, and the children \<^verbatim>\<open>squarify\<close> keeps.\<close>

definition rect_area :: "Rect \<Rightarrow> real" where
  "rect_area r = rect_w r * rect_h r"

definition positive_children :: "Node list \<Rightarrow> Node list" where
  "positive_children nodes = filter (\<lambda>n. node_size n > 0) nodes"

text \<open>A scan is complete when the cancellation predicate, if there is one, never answers
  true.\<close>

definition never_cancels :: "scan_opts \<Rightarrow> bool" where
  "never_cancels opts = (case cancel_flag opts of None \<Rightarrow> True | Some f \<Rightarrow> \<forall>k. \<not> f k)"

text \<open>The files a complete scan of a directory visits, as the pairs of size and path the
  scan offers to the global heap, in the order of the visit.\<close>

fun visited_files :: "scan_opts \<Rightarrow> scandir_result \<Rightarrow> (int \<times> string) list"
and visited_in :: "scan_opts \<Rightarrow> dir_entry list \<Rightarrow> (int \<times> string) list" where
  "visited_files opts ScandirError = []"
| "visited_files opts (Scandir entries fails) = visited_in opts entries"
| "visited_in opts [] = []"
| "visited_in opts (DirEntry nm pth symlink st # rest) =
     (if skips opts symlink then []
      else (case st of
              StatError \<Rightarrow> []
            | StatFile sz \<Rightarrow> [(sz, pth)]
            | StatDir sub \<Rightarrow> visited_files opts sub)) @ visited_in opts rest"

text \<open>The files and the subdirectories among the entries of one directory that a scan
  reads: the files with size, name and path, the subdirectories with their path and
  what listing them yields.\<close>

fun dir_files :: "scan_opts \<Rightarrow> dir_entry list \<Rightarrow> (int \<times> string \<times> string) list" where
  "dir_files opts [] = []"
| "dir_files opts (DirEntry nm pth symlink st # rest) =
     (if skips opts symlink then []
      else (case st of StatFile sz \<Rightarrow> [(sz, nm, pth)] | _ \<Rightarrow> [])) @ dir_files opts rest"

fun subdirs :: "scan_opts \<Rightarrow> dir_entry list \<Rightarrow> (string \<times> scandir_result) list" where
  "subdirs opts [] = []"
| "subdirs opts (DirEntry nm pth symlink st # rest) =
     (if skips opts symlink then []
      else (case st of StatDir sub \<Rightarrow> [(pth, sub)] | _ \<Rightarrow> [])) @ subdirs opts rest"

fun entries_of :: "scandir_result \<Rightarrow> dir_entry list" where
  "entries_of ScandirError = []"
| "entries_of (Scandir entries fails) = entries"

text \<open>The node \<^verbatim>\<open>scan_dir\<close> makes for a retained file.\<close>

definition file_node :: "int \<times> string \<times> string \<Rightarrow> Node" where
  "file_node = (\<lambda>(sz, nm, pth). Node nm pth False sz [])"

text \<open>Names for the pieces of \<^verbatim>\<open>scan_dir\<close>: the node and the locals it starts with, the state
  after a subdirectory has been counted, the locals after a subdirectory node has been
  appended.\<close>

definition empty_node :: "os_env \<Rightarrow> string \<Rightarrow> Node" where
  "empty_node os p = Node (display_name os p) p True 0 []"

definition fresh_locals :: "os_env \<Rightarrow> string \<Rightarrow> dir_locals" where
  "fresh_locals os p =
     \<lparr>node = empty_node os p, local_top = [], local_files_count = 0, local_other_bytes = 0\<rparr>"

definition entered :: "scan_state \<Rightarrow> scan_state" where
  "entered s = s\<lparr>dirs := dirs s + 1\<rparr>"

definition attach :: "dir_locals \<Rightarrow> Node \<Rightarrow> dir_locals" where
  "attach l child = l\<lparr>node := add_size (append_child (node l) child) (node_size child)\<rparr>"

text \<open>The extension histogram accounts for every byte and every file counted so far.\<close>

definition ext_totals :: "'a scan_counters_scheme \<Rightarrow> bool" where
  "ext_totals s \<longleftrightarrow>
     distinct (map fst (ext_stats s)) \<and>
     sum_list (map (fst \<circ> snd) (ext_stats s)) = bytes_scanned s \<and>
     sum_list (map (snd \<circ> snd) (ext_stats s)) = files s"

text \<open>
  Offering a list of files to the global heap one after the other, as the scan does; the
  paths of all files a complete scan visits; and what it means for a heap to hold the
  largest of the files seen: it is a heap, its items are among the files seen, it holds
  as many as the limit allows, and no file left out is larger than a file in the heap.
\<close>

fun push_all :: "(int \<times> string) list \<Rightarrow> (int \<times> string) list \<Rightarrow> int \<Rightarrow> error + (int \<times> string) list" where
  "push_all heap [] limit = Inr heap"
| "push_all heap (item # items) limit =
     (case push_top heap item limit of Inl e \<Rightarrow> Inl e | Inr heap' \<Rightarrow> push_all heap' items limit)"

definition top_of :: "int \<Rightarrow> (int \<times> string) list \<Rightarrow> (int \<times> string) list \<Rightarrow> bool" where
  "top_of limit heap seen \<longleftrightarrow>
     heap_inv heap \<and> mset heap \<subseteq># mset seen \<and>
     length heap = min (nat limit) (length seen) \<and>
     (\<forall>a \<in># mset heap. \<forall>b \<in># mset seen - mset heap. fst b \<le> fst a)"

definition all_visited :: "os_env \<Rightarrow> scan_opts \<Rightarrow> string list \<Rightarrow> (int \<times> string) list" where
  "all_visited os opts paths =
     concat (map (\<lambda>p. visited_files opts (scandir os p)) (normalize_paths os paths))"

text \<open>
  The overflow node \<^verbatim>\<open>scan_dir\<close> appends after the loop, as a list of no or one node.
\<close>

definition overflow :: "string \<Rightarrow> dir_locals \<Rightarrow> Node list" where
  "overflow p l =
     (let other_count = max 0 (local_files_count l - int (length (local_top l)))
      in if other_count > 0 \<and> local_other_bytes l > 0
         then [other_files_node p other_count (local_other_bytes l)] else [])"

text \<open>
  The order of the children of a directory node, all the way down: first nodes of
  subdirectories, matching a prefix of the subdirectories read, in the order of the
  listing, each ordered in the same way; then at most as many nodes of files of the
  directory as the limit allows, sorted by non-increasing size; at the end no or one
  overflow node.
\<close>

inductive children_ordered :: "scan_opts \<Rightarrow> string \<Rightarrow> scandir_result \<Rightarrow> Node \<Rightarrow> bool"
  for opts :: scan_opts where
  ordered:
    "children n = D @ F @ X \<Longrightarrow>
     list_all2 (\<lambda>e d. is_dir d \<and> node_path d = fst e \<and> children_ordered opts (fst e) (snd e) d)
       (take (length D) (subdirs opts (entries_of listing))) D \<Longrightarrow>
     \<forall>f \<in> set F. \<not> is_dir f \<and> children f = [] \<and>
        (node_size f, node_name f, node_path f) \<in> set (dir_files opts (entries_of listing)) \<Longrightarrow>
     sorted_wrt (\<lambda>a b. node_size a \<ge> node_size b) F \<Longrightarrow>
     int (length F) \<le> max 0 (top_files_per_dir opts) \<Longrightarrow>
     X = [] \<or> (\<exists>c b. 0 < c \<and> 0 < b \<and> X = [other_files_node p c b]) \<Longrightarrow>
     children_ordered opts p listing n"

text \<open>
  No file displaces a retained one: every file met after the first \<open>k\<close> files of the
  directory is no larger than each of these.
\<close>

definition no_displacement :: "nat \<Rightarrow> (int \<times> string \<times> string) list \<Rightarrow> bool" where
  "no_displacement k fs \<longleftrightarrow> (\<forall>x \<in> set (drop k fs). \<forall>y \<in> set (take k fs). fst x \<le> fst y)"
section \<open>Properties\<close>

subsection \<open>The heap operations keep the heap invariant and the items\<close>

declare siftdown_loop.simps [simp del] siftup_loop.simps [simp del]

lemma parent_less: "0 < i \<Longrightarrow> (i - 1) div 2 < (i::nat)"
  by auto

lemma length_siftdown_loop [simp]: "length (siftdown_loop h x s p) = length h"
proof (induction h x s p rule: siftdown_loop.induct)
  case (1 heap newitem startpos pos)
  then show ?case
    by (subst siftdown_loop.simps) (simp add: Let_def)
qed

lemma mset_siftdown_loop:
  "p < length h \<Longrightarrow> mset (siftdown_loop h x s p) = add_mset x (mset h - {#h ! p#})"
proof (induction h x s p rule: siftdown_loop.induct)
  case (1 heap newitem startpos pos)
  let ?pp = "(pos - 1) div 2"
  show ?case
  proof (cases "pos > startpos \<and> newitem < heap ! ?pp")
    case True
    then have pp: "?pp < pos" by auto
    have "siftdown_loop heap newitem startpos pos
            = siftdown_loop (heap[pos := heap ! ?pp]) newitem startpos ?pp"
      using True by (subst siftdown_loop.simps) (simp add: Let_def)
    moreover have "mset (siftdown_loop (heap[pos := heap ! ?pp]) newitem startpos ?pp)
            = add_mset newitem (mset (heap[pos := heap ! ?pp]) - {#heap[pos := heap ! ?pp] ! ?pp#})"
      using "1.IH"[of ?pp "heap ! ?pp"] True pp "1.prems" by simp
    moreover have "heap[pos := heap ! ?pp] ! ?pp = heap ! ?pp"
      using pp by simp
    moreover have "mset (heap[pos := heap ! ?pp]) = add_mset (heap ! ?pp) (mset heap - {#heap ! pos#})"
      using "1.prems" by (simp add: mset_update)
    ultimately show ?thesis by simp
  next
    case False
    then have "siftdown_loop heap newitem startpos pos = heap[pos := newitem]"
      by (subst siftdown_loop.simps) (auto simp add: Let_def)
    then show ?thesis using "1.prems" by (simp add: mset_update)
  qed
qed

lemma heap_inv_siftdown_loop:
  assumes "p < length h"
    and "\<forall>i. 0 < i \<and> i < length h \<and> i \<noteq> p \<longrightarrow> (h[p := x]) ! ((i - 1) div 2) \<le> (h[p := x]) ! i"
    and "\<forall>c. 0 < p \<and> 0 < c \<and> c < length h \<and> (c - 1) div 2 = p \<longrightarrow> h ! ((p - 1) div 2) \<le> h ! c"
  shows "heap_inv (siftdown_loop h x 0 p)"
  using assms
proof (induction h x "0::nat" p rule: siftdown_loop.induct)
  case (1 heap newitem pos)
  let ?pp = "(pos - 1) div 2"
  note b = "1.prems"(2)[rule_format]
  note c = "1.prems"(3)[rule_format]
  show ?case
  proof (cases "pos > 0 \<and> newitem < heap ! ?pp")
    case True
    then have pp: "?pp < pos" by auto
    let ?h' = "heap[pos := heap ! ?pp]"
    have eq: "siftdown_loop heap newitem 0 pos = siftdown_loop ?h' newitem 0 ?pp"
      using True by (subst siftdown_loop.simps) (simp add: Let_def)
    have a': "?pp < length ?h'" using pp "1.prems"(1) by simp
    have b': "\<forall>i. 0 < i \<and> i < length ?h' \<and> i \<noteq> ?pp \<longrightarrow>
                (?h'[?pp := newitem]) ! ((i - 1) div 2) \<le> (?h'[?pp := newitem]) ! i"
    proof (intro allI impI)
      fix i assume i: "0 < i \<and> i < length ?h' \<and> i \<noteq> ?pp"
      show "(?h'[?pp := newitem]) ! ((i - 1) div 2) \<le> (?h'[?pp := newitem]) ! i"
      proof (cases "i = pos")
        case True
        then show ?thesis using \<open>pos > 0 \<and> newitem < heap ! ?pp\<close> pp "1.prems"(1)
          by (simp add: nth_list_update)
      next
        case False
        have gi: "heap[pos := newitem] ! ((i - 1) div 2) \<le> heap[pos := newitem] ! i"
          using b[of i] i False by simp
        have pi: "(i - 1) div 2 < length heap" using i by auto
        show ?thesis
        proof (cases "(i - 1) div 2 = pos")
          case True
          then have "heap ! ?pp \<le> heap ! i" using c[of i] i \<open>pos > 0 \<and> newitem < heap ! ?pp\<close> by simp
          then show ?thesis using True False i pp "1.prems"(1) by (simp add: nth_list_update)
        next
          case F2: False
          show ?thesis
          proof (cases "(i - 1) div 2 = ?pp")
            case True
            then have "heap ! ?pp \<le> heap ! i" using gi False pp i by (simp add: nth_list_update)
            then show ?thesis using True False i pp "1.prems"(1) \<open>pos > 0 \<and> newitem < heap ! ?pp\<close>
              by (simp add: nth_list_update)
          next
            case F3: False
            then show ?thesis using gi False F2 i pp "1.prems"(1) pi by (simp add: nth_list_update)
          qed
        qed
      qed
    qed
    have c': "\<forall>c. 0 < ?pp \<and> 0 < c \<and> c < length ?h' \<and> (c - 1) div 2 = ?pp \<longrightarrow>
                ?h' ! ((?pp - 1) div 2) \<le> ?h' ! c"
    proof (intro allI impI)
      fix c assume cc: "0 < ?pp \<and> 0 < c \<and> c < length ?h' \<and> (c - 1) div 2 = ?pp"
      have ppp: "(?pp - 1) div 2 < ?pp" using cc parent_less by blast
      have g1: "heap ! ((?pp - 1) div 2) \<le> heap ! ?pp"
        using b[of ?pp] cc pp ppp "1.prems"(1) by (simp add: nth_list_update)
      show "?h' ! ((?pp - 1) div 2) \<le> ?h' ! c"
      proof (cases "c = pos")
        case True
        then show ?thesis using g1 ppp pp "1.prems"(1) by (simp add: nth_list_update)
      next
        case False
        have "heap ! ?pp \<le> heap ! c" using b[of c] cc False pp by (simp add: nth_list_update)
        then show ?thesis using g1 False ppp pp cc by (simp add: nth_list_update)
      qed
    qed
    show ?thesis
      unfolding eq using "1.hyps"[OF _ refl refl _ a' b' c'] True by simp
  next
    case False
    then have eq: "siftdown_loop heap newitem 0 pos = heap[pos := newitem]"
      by (subst siftdown_loop.simps) (auto simp add: Let_def)
    show ?thesis unfolding eq heap_inv_def
    proof (intro allI impI)
      fix i assume i: "0 < i \<and> i < length (heap[pos := newitem])"
      show "heap[pos := newitem] ! ((i - 1) div 2) \<le> heap[pos := newitem] ! i"
      proof (cases "i = pos")
        case True
        then have "(i - 1) div 2 < pos" using i by auto
        then show ?thesis using True False i by (simp add: nth_list_update)
      next
        case False
        then show ?thesis using b[of i] i by simp
      qed
    qed
  qed
qed


lemma child_cases: "0 < c \<Longrightarrow> (c - 1) div 2 = (p::nat) \<Longrightarrow> c = 2 * p + 1 \<or> c = 2 * p + 2"
  by presburger

lemma mset_move_hole:
  assumes "i < length h" "j < length h" "i \<noteq> j"
  shows "mset (h[i := h ! j, j := x]) = mset (h[i := x])"
proof -
  let ?l = "h[i := x]"
  have "mset (?l[j := ?l ! i, i := ?l ! j]) = mset ?l"
    using assms by (intro mset_swap) simp_all
  moreover have "?l[j := ?l ! i, i := ?l ! j] = h[i := h ! j, j := x]"
    using assms by (auto simp: list_eq_iff_nth_eq nth_list_update)
  ultimately show ?thesis by simp
qed

lemma siftup_loop_props:
  assumes "endpos = length h" "cp = 2 * pos + 1" "pos < length h"
    and "\<forall>i. 0 < i \<and> i < length h \<and> i \<noteq> pos \<and> (i - 1) div 2 \<noteq> pos \<longrightarrow> h ! ((i - 1) div 2) \<le> h ! i"
    and "\<forall>c. 0 < pos \<and> 0 < c \<and> c < length h \<and> (c - 1) div 2 = pos \<longrightarrow> h ! ((pos - 1) div 2) \<le> h ! c"
    and "siftup_loop h endpos pos cp = (h', p')"
  shows "length h' = length h \<and> p' < length h \<and> length h \<le> 2 * p' + 1 \<and>
         (\<forall>i. 0 < i \<and> i < length h \<and> i \<noteq> p' \<and> (i - 1) div 2 \<noteq> p' \<longrightarrow> h' ! ((i - 1) div 2) \<le> h' ! i) \<and>
         mset (h'[p' := x]) = mset (h[pos := x])"
  using assms
proof (induction h endpos pos cp rule: siftup_loop.induct)
  case (1 heap endpos pos childpos)
  note e = "1.prems"(4)[rule_format]
  note g = "1.prems"(5)[rule_format]
  show ?case
  proof (cases "childpos < endpos")
    case False
    then have "siftup_loop heap endpos pos childpos = (heap, pos)"
      by (subst siftup_loop.simps) simp
    then have "h' = heap" "p' = pos" using "1.prems"(6) by simp_all
    then show ?thesis using False "1.prems" by simp
  next
    case True
    define c' where "c' = (if childpos + 1 < endpos \<and> \<not> heap ! childpos < heap ! (childpos + 1)
                          then childpos + 1 else childpos)"
    let ?h1 = "heap[pos := heap ! c']"
    have c'_cases: "c' = 2 * pos + 1 \<or> c' = 2 * pos + 2"
      using "1.prems"(2) by (auto simp: c'_def)
    have c'_len: "c' < length heap" using True "1.prems"(1) by (auto simp: c'_def)
    have c'_par: "(c' - 1) div 2 = pos" "pos < c'" "0 < c'" using c'_cases by auto
    have c'_min: "heap ! c' \<le> heap ! i" if "0 < i" "i < length heap" "(i - 1) div 2 = pos" for i
    proof -
      have "i = 2 * pos + 1 \<or> i = 2 * pos + 2" using that child_cases by blast
      then show ?thesis using that "1.prems"(1,2) by (auto simp: c'_def)
    qed
    have eq: "siftup_loop heap endpos pos childpos = siftup_loop ?h1 endpos c' (2 * c' + 1)"
      using True by (subst siftup_loop.simps) (simp add: Let_def c'_def)
    have e1: "\<forall>i. 0 < i \<and> i < length ?h1 \<and> i \<noteq> c' \<and> (i - 1) div 2 \<noteq> c' \<longrightarrow> ?h1 ! ((i - 1) div 2) \<le> ?h1 ! i"
    proof (intro allI impI)
      fix i assume i: "0 < i \<and> i < length ?h1 \<and> i \<noteq> c' \<and> (i - 1) div 2 \<noteq> c'"
      have pi: "(i - 1) div 2 < i" using i parent_less by blast
      show "?h1 ! ((i - 1) div 2) \<le> ?h1 ! i"
      proof (cases "i = pos")
        case True
        then have "heap ! ((pos - 1) div 2) \<le> heap ! c'"
          using g[of c'] i c'_par c'_len by simp
        then show ?thesis using True pi "1.prems"(3) by (simp add: nth_list_update)
      next
        case False
        show ?thesis
        proof (cases "(i - 1) div 2 = pos")
          case True
          then have "heap ! c' \<le> heap ! i" using c'_min[of i] i by simp
          then show ?thesis using True False "1.prems"(3) by (simp add: nth_list_update)
        next
          case F2: False
          then show ?thesis using e[of i] i False by (simp add: nth_list_update)
        qed
      qed
    qed
    have g1: "\<forall>c. 0 < c' \<and> 0 < c \<and> c < length ?h1 \<and> (c - 1) div 2 = c' \<longrightarrow> ?h1 ! ((c' - 1) div 2) \<le> ?h1 ! c"
    proof (intro allI impI)
      fix c assume c: "0 < c' \<and> 0 < c \<and> c < length ?h1 \<and> (c - 1) div 2 = c'"
      then have "c' < c" using parent_less[of c] by simp
      then have cne: "c \<noteq> pos" using c'_par by simp
      have "heap ! c' \<le> heap ! c" using e[of c] c cne c'_par by simp
      then show "?h1 ! ((c' - 1) div 2) \<le> ?h1 ! c"
        using c'_par cne "1.prems"(3) by (simp add: nth_list_update)
    qed
    have IH: "length h' = length ?h1 \<and> p' < length ?h1 \<and> length ?h1 \<le> 2 * p' + 1 \<and>
         (\<forall>i. 0 < i \<and> i < length ?h1 \<and> i \<noteq> p' \<and> (i - 1) div 2 \<noteq> p' \<longrightarrow> h' ! ((i - 1) div 2) \<le> h' ! i) \<and>
         mset (h'[p' := x]) = mset (?h1[c' := x])"
    proof -
      have A: "endpos = length ?h1" using "1.prems"(1) by simp
      have B: "c' < length ?h1" using c'_len by simp
      have C: "siftup_loop ?h1 endpos c' (2 * c' + 1) = (h', p')" using "1.prems"(6) eq by simp
      show ?thesis by (rule "1.IH"[OF True refl c'_def A refl B e1 g1 C])
    qed
    moreover have "mset (?h1[c' := x]) = mset (heap[pos := x])"
      using mset_move_hole[of pos heap c' x] "1.prems"(3) c'_len c'_par by simp
    ultimately show ?thesis by simp
  qed
qed


lemma heap_inv_Nil [simp]: "heap_inv []"
  by (simp add: heap_inv_def)

lemma heap_inv_min: "heap_inv h \<Longrightarrow> i < length h \<Longrightarrow> h ! 0 \<le> h ! i"
proof (induction i rule: less_induct)
  case (less i)
  show ?case
  proof (cases "i = 0")
    case True
    then show ?thesis by simp
  next
    case False
    then have "(i - 1) div 2 < i" by auto
    moreover have "h ! ((i - 1) div 2) \<le> h ! i"
      using less.prems False by (simp add: heap_inv_def)
    ultimately show ?thesis using less.IH[of "(i - 1) div 2"] less.prems by auto
  qed
qed

lemma heap_inv_hd_le: "heap_inv h \<Longrightarrow> x \<in> set h \<Longrightarrow> h ! 0 \<le> x"
  by (auto simp: in_set_conv_nth heap_inv_min)

lemma length_heappush [simp]: "length (heappush h x) = Suc (length h)"
  by (simp add: heappush_def siftdown_def)

lemma mset_heappush [simp]: "mset (heappush h x) = add_mset x (mset h)"
  by (simp add: heappush_def siftdown_def mset_siftdown_loop)

lemma heap_inv_heappush: "heap_inv h \<Longrightarrow> heap_inv (heappush h x)"
proof -
  assume h: "heap_inv h"
  have "heap_inv (siftdown_loop (h @ [x]) x 0 (length h))"
  proof (rule heap_inv_siftdown_loop)
    show "length h < length (h @ [x])" by simp
    show "\<forall>i. 0 < i \<and> i < length (h @ [x]) \<and> i \<noteq> length h \<longrightarrow>
            (h @ [x])[length h := x] ! ((i - 1) div 2) \<le> (h @ [x])[length h := x] ! i"
    proof (intro allI impI)
      fix i assume i: "0 < i \<and> i < length (h @ [x]) \<and> i \<noteq> length h"
      then have "i < length h" by simp
      moreover have "(i - 1) div 2 < length h" using i by auto
      ultimately show "(h @ [x])[length h := x] ! ((i - 1) div 2) \<le> (h @ [x])[length h := x] ! i"
        using h i by (simp add: nth_append heap_inv_def)
    qed
    show "\<forall>c. 0 < length h \<and> 0 < c \<and> c < length (h @ [x]) \<and> (c - 1) div 2 = length h \<longrightarrow>
            (h @ [x]) ! ((length h - 1) div 2) \<le> (h @ [x]) ! c"
    proof (intro allI impI)
      fix c assume c: "0 < length h \<and> 0 < c \<and> c < length (h @ [x]) \<and> (c - 1) div 2 = length h"
      then have "length h < c" using parent_less[of c] by simp
      then show "(h @ [x]) ! ((length h - 1) div 2) \<le> (h @ [x]) ! c" using c by simp
    qed
  qed
  then show ?thesis by (simp add: heappush_def siftdown_def)
qed

lemma siftup_root:
  assumes "g \<noteq> []"
    and "\<forall>i. 0 < i \<and> i < length g \<and> (i - 1) div 2 \<noteq> 0 \<longrightarrow> g ! ((i - 1) div 2) \<le> g ! i"
  shows "heap_inv (siftup g 0) \<and> mset (siftup g 0) = mset g \<and> length (siftup g 0) = length g"
proof -
  obtain h' p' where sl: "siftup_loop g (length g) 0 (2 * 0 + 1) = (h', p')"
    by (cases "siftup_loop g (length g) 0 (2 * 0 + 1)") auto
  have props: "length h' = length g \<and> p' < length g \<and> length g \<le> 2 * p' + 1 \<and>
         (\<forall>i. 0 < i \<and> i < length g \<and> i \<noteq> p' \<and> (i - 1) div 2 \<noteq> p' \<longrightarrow> h' ! ((i - 1) div 2) \<le> h' ! i) \<and>
         mset (h'[p' := g ! 0]) = mset (g[0 := g ! 0])"
    by (rule siftup_loop_props[OF refl refl _ _ _ sl]) (use assms in auto)
  let ?k = "h'[p' := g ! 0]"
  have leaf: "(i - 1) div 2 \<noteq> p'" if "0 < i" "i < length g" for i
  proof
    assume "(i - 1) div 2 = p'"
    then have "i = 2 * p' + 1 \<or> i = 2 * p' + 2" using that child_cases by blast
    then show False using props that by auto
  qed
  have eq: "siftup g 0 = siftdown_loop ?k (g ! 0) 0 p'"
    using sl props by (simp add: siftup_def siftdown_def Let_def)
  have "heap_inv (siftdown_loop ?k (g ! 0) 0 p')"
  proof (rule heap_inv_siftdown_loop)
    show "p' < length ?k" using props by simp
    show "\<forall>i. 0 < i \<and> i < length ?k \<and> i \<noteq> p' \<longrightarrow>
            ?k[p' := g ! 0] ! ((i - 1) div 2) \<le> ?k[p' := g ! 0] ! i"
    proof (intro allI impI)
      fix i assume i: "0 < i \<and> i < length ?k \<and> i \<noteq> p'"
      then have "(i - 1) div 2 \<noteq> p'" using leaf[of i] props by simp
      moreover from this have "h' ! ((i - 1) div 2) \<le> h' ! i" using props i by simp
      ultimately show "?k[p' := g ! 0] ! ((i - 1) div 2) \<le> ?k[p' := g ! 0] ! i"
        using i by (simp add: nth_list_update)
    qed
    show "\<forall>c. 0 < p' \<and> 0 < c \<and> c < length ?k \<and> (c - 1) div 2 = p' \<longrightarrow>
            ?k ! ((p' - 1) div 2) \<le> ?k ! c"
      using leaf props by auto
  qed
  moreover have "mset (siftdown_loop ?k (g ! 0) 0 p') = mset g"
  proof -
    have kp: "?k ! p' = g ! 0" and pk: "p' < length ?k" using props by simp_all
    then have "g ! 0 \<in># mset ?k" by (metis nth_mem_mset)
    then have "add_mset (g ! 0) (mset ?k - {#g ! 0#}) = mset ?k" by (rule insert_DiffM)
    moreover have "mset (siftdown_loop ?k (g ! 0) 0 p') = add_mset (g ! 0) (mset ?k - {#?k ! p'#})"
      using pk by (rule mset_siftdown_loop)
    moreover have "mset ?k = mset g" using props by simp
    ultimately show ?thesis using kp by simp
  qed
  ultimately show ?thesis using eq props by simp
qed

lemma heapreplace_props:
  assumes "heap_inv h" "h \<noteq> []"
  shows "\<exists>h'. heapreplace h x = Inr (h ! 0, h') \<and> heap_inv h' \<and>
           mset h' = add_mset x (mset h - {#h ! 0#}) \<and> length h' = length h"
proof -
  let ?g = "h[0 := x]"
  have "heap_inv (siftup ?g 0) \<and> mset (siftup ?g 0) = mset ?g \<and> length (siftup ?g 0) = length ?g"
  proof (rule siftup_root)
    show "?g \<noteq> []" using assms by simp
    show "\<forall>i. 0 < i \<and> i < length ?g \<and> (i - 1) div 2 \<noteq> 0 \<longrightarrow> ?g ! ((i - 1) div 2) \<le> ?g ! i"
      using assms(1) by (simp add: heap_inv_def)
  qed
  moreover have "heapreplace h x = Inr (h ! 0, siftup ?g 0)"
    using assms(2) by (cases h) (simp_all add: heapreplace_def)
  moreover have "mset ?g = add_mset x (mset h - {#h ! 0#})"
    using assms(2) by (simp add: mset_update)
  ultimately show ?thesis by simp
qed

subsection \<open>The recursion of the scan\<close>

declare scan_dir.simps [simp del]

lemma scan_dir_unfold:
  "scan_dir os opts p listing s =
     (if fst (cancelled opts s) then Inr (empty_node os p, snd (cancelled opts s))
      else (case listing of
              ScandirError \<Rightarrow> Inr (empty_node os p, snd (cancelled opts s))
            | Scandir entries fails \<Rightarrow>
                (case scan_loop os opts p entries (fresh_locals os p) (snd (cancelled opts s)) of
                   Inl e \<Rightarrow> Inl e
                 | Inr (l, broke, s2) \<Rightarrow>
                     Inr (if fails \<and> \<not> broke then node l else finish_dir p l, s2))))"
  by (cases "cancelled opts s")
     (auto simp: scan_dir.simps Let_def empty_node_def fresh_locals_def
           split: scandir_result.splits sum.splits)

lemma scan_loop_unfold:
  "scan_loop os opts p (DirEntry nm pth symlink st # rest) l s =
     (if fst (cancelled opts s) then Inr (l, True, snd (cancelled opts s))
      else if skips opts symlink then scan_loop os opts p rest l (snd (cancelled opts s))
      else (case st of
              StatError \<Rightarrow> scan_loop os opts p rest l (snd (cancelled opts s))
            | StatDir sub \<Rightarrow>
                (case scan_dir os opts pth sub (entered (snd (cancelled opts s))) of
                   Inl e \<Rightarrow> Inl e
                 | Inr (child, s2) \<Rightarrow> scan_loop os opts p rest (attach l child) s2)
            | StatFile sz \<Rightarrow>
                (case scan_file os opts nm pth sz l (snd (cancelled opts s)) of
                   Inl e \<Rightarrow> Inl e
                 | Inr (l2, s2) \<Rightarrow> scan_loop os opts p rest l2 s2)))"
  by (cases "cancelled opts s") (simp add: entered_def attach_def split: stat_result.splits sum.splits)

lemma scan_induct [case_names dir nil cons]:
  fixes P :: "string \<Rightarrow> scandir_result \<Rightarrow> scan_state \<Rightarrow> bool"
    and Q :: "string \<Rightarrow> dir_entry list \<Rightarrow> dir_locals \<Rightarrow> scan_state \<Rightarrow> bool"
  assumes dir: "\<And>p listing s.
        (\<And>entries fails. listing = Scandir entries fails \<Longrightarrow> \<not> fst (cancelled opts s) \<Longrightarrow>
           Q p entries (fresh_locals os p) (snd (cancelled opts s))) \<Longrightarrow> P p listing s"
    and nil: "\<And>p l s. Q p [] l s"
    and cons: "\<And>p nm pth symlink st rest l s.
        (\<not> fst (cancelled opts s) \<Longrightarrow> skips opts symlink \<or> st = StatError \<Longrightarrow>
           Q p rest l (snd (cancelled opts s))) \<Longrightarrow>
        (\<And>sub. \<not> fst (cancelled opts s) \<Longrightarrow> \<not> skips opts symlink \<Longrightarrow> st = StatDir sub \<Longrightarrow>
           P pth sub (entered (snd (cancelled opts s)))) \<Longrightarrow>
        (\<And>sub child s2. \<not> fst (cancelled opts s) \<Longrightarrow> \<not> skips opts symlink \<Longrightarrow> st = StatDir sub \<Longrightarrow>
           scan_dir os opts pth sub (entered (snd (cancelled opts s))) = Inr (child, s2) \<Longrightarrow>
           Q p rest (attach l child) s2) \<Longrightarrow>
        (\<And>sz l2 s2. \<not> fst (cancelled opts s) \<Longrightarrow> \<not> skips opts symlink \<Longrightarrow> st = StatFile sz \<Longrightarrow>
           scan_file os opts nm pth sz l (snd (cancelled opts s)) = Inr (l2, s2) \<Longrightarrow>
           Q p rest l2 s2) \<Longrightarrow>
        Q p (DirEntry nm pth symlink st # rest) l s"
  shows "P p listing s" and "Q p entries l s"
proof -
  have "(os' = os \<longrightarrow> opts' = opts \<longrightarrow> P p listing s)"
    and "(os' = os \<longrightarrow> opts' = opts \<longrightarrow> Q p entries l s)" for os' opts'
  proof (induction os' opts' p listing s and os' opts' p entries l s
         rule: scan_dir_scan_loop.induct)
    case (1 os' opts' dir_path listing s)
    show ?case
    proof (intro impI)
      assume e: "os' = os" "opts' = opts"
      show "P dir_path listing s"
      proof (rule dir)
        fix entries fails
        assume li: "listing = Scandir entries fails" and nc: "\<not> fst (cancelled opts s)"
        obtain c0 s1 where cs: "cancelled opts s = (c0, s1)" by (cases "cancelled opts s") auto
        then have cs': "(c0, s1) = cancelled opts' s" using e by simp
        have nc0: "\<not> c0" using nc cs by simp
        have "Q dir_path entries
                \<lparr>node = Node (display_name os' dir_path) dir_path True 0 [], local_top = [],
                 local_files_count = 0, local_other_bytes = 0\<rparr> s1"
          using "1.IH"[OF refl refl cs' nc0 li] e by simp
        then show "Q dir_path entries (fresh_locals os dir_path) (snd (cancelled opts s))"
          using cs e by (simp add: fresh_locals_def empty_node_def)
      qed
    qed
  next
    case (2 os' opts' dir_path l s)
    show ?case by (simp add: nil)
  next
    case (3 os' opts' dir_path nm pth symlink st rest l s)
    show ?case
    proof (intro impI)
      assume e: "os' = os" "opts' = opts"
      obtain c0 s1 where cs: "cancelled opts s = (c0, s1)" by (cases "cancelled opts s") auto
      then have cs': "(c0, s1) = cancelled opts' s" using e by simp
      show "Q dir_path (DirEntry nm pth symlink st # rest) l s"
      proof (rule cons)
        assume nc: "\<not> fst (cancelled opts s)" and sk: "skips opts symlink \<or> st = StatError"
        then have nc0: "\<not> c0" using cs by simp
        show "Q dir_path rest l (snd (cancelled opts s))"
        proof (cases "skips opts symlink")
          case True
          then show ?thesis using "3.IH"(1)[OF refl cs' nc0] e cs by simp
        next
          case False
          then have "st = StatError" using sk by simp
          then show ?thesis using "3.IH"(2)[OF refl cs' nc0] False e cs by simp
        qed
      next
        fix sub
        assume nc: "\<not> fst (cancelled opts s)" and ns: "\<not> skips opts symlink" and st: "st = StatDir sub"
        then have nc0: "\<not> c0" using cs by simp
        show "P pth sub (entered (snd (cancelled opts s)))"
          using "3.IH"(4)[OF refl cs' nc0 _ st] ns e cs by (simp add: entered_def)
      next
        fix sub child s2
        assume nc: "\<not> fst (cancelled opts s)" and ns: "\<not> skips opts symlink" and st: "st = StatDir sub"
          and sd: "scan_dir os opts pth sub (entered (snd (cancelled opts s))) = Inr (child, s2)"
        then have nc0: "\<not> c0" using cs by simp
        have sd': "scan_dir os' opts' pth sub (s1\<lparr>dirs := dirs s1 + 1\<rparr>) = Inr (child, s2)"
          using sd e cs by (simp add: entered_def)
        show "Q dir_path rest (attach l child) s2"
          using "3.IH"(5)[OF refl cs' nc0 _ st sd' refl] ns e by (simp add: attach_def)
      next
        fix sz l2 s2
        assume nc: "\<not> fst (cancelled opts s)" and ns: "\<not> skips opts symlink" and st: "st = StatFile sz"
          and sf: "scan_file os opts nm pth sz l (snd (cancelled opts s)) = Inr (l2, s2)"
        then have nc0: "\<not> c0" using cs by simp
        have sf': "scan_file os' opts' nm pth sz l s1 = Inr (l2, s2)"
          using sf e cs by simp
        show "Q dir_path rest l2 s2"
          using "3.IH"(3)[OF refl cs' nc0 _ st sf' refl] ns e by simp
      qed
    qed
  qed
  then show "P p listing s" and "Q p entries l s" by blast+
qed

declare scan_loop.simps(2) [simp del]

lemma scan_dir_stop:
  "fst (cancelled opts s) \<or> listing = ScandirError \<Longrightarrow>
     scan_dir os opts p listing s = Inr (empty_node os p, snd (cancelled opts s))"
  by (auto simp: scan_dir_unfold)

lemma scan_dir_list:
  "\<not> fst (cancelled opts s) \<Longrightarrow>
   scan_loop os opts p entries (fresh_locals os p) (snd (cancelled opts s)) = Inr (l, broke, s2) \<Longrightarrow>
     scan_dir os opts p (Scandir entries fails) s
       = Inr (if fails \<and> \<not> broke then node l else finish_dir p l, s2)"
  by (simp add: scan_dir_unfold)

lemma scan_loop_cancel:
  "fst (cancelled opts s) \<Longrightarrow>
     scan_loop os opts p (DirEntry nm pth symlink st # rest) l s
       = Inr (l, True, snd (cancelled opts s))"
  by (simp add: scan_loop_unfold)

lemma scan_loop_skip:
  "\<not> fst (cancelled opts s) \<Longrightarrow> skips opts symlink \<or> st = StatError \<Longrightarrow>
     scan_loop os opts p (DirEntry nm pth symlink st # rest) l s
       = scan_loop os opts p rest l (snd (cancelled opts s))"
  by (auto simp: scan_loop_unfold)

lemma scan_loop_file:
  "\<not> fst (cancelled opts s) \<Longrightarrow> \<not> skips opts symlink \<Longrightarrow> st = StatFile sz \<Longrightarrow>
   scan_file os opts nm pth sz l (snd (cancelled opts s)) = Inr (l2, s2) \<Longrightarrow>
     scan_loop os opts p (DirEntry nm pth symlink st # rest) l s
       = scan_loop os opts p rest l2 s2"
  by (simp add: scan_loop_unfold)

lemma scan_loop_dir:
  "\<not> fst (cancelled opts s) \<Longrightarrow> \<not> skips opts symlink \<Longrightarrow> st = StatDir sub \<Longrightarrow>
   scan_dir os opts pth sub (entered (snd (cancelled opts s))) = Inr (child, s2) \<Longrightarrow>
     scan_loop os opts p (DirEntry nm pth symlink st # rest) l s
       = scan_loop os opts p rest (attach l child) s2"
  by (simp add: scan_loop_unfold)

lemma heapreplace_nonempty:
  "h \<noteq> [] \<Longrightarrow> heapreplace h x = Inr (h ! 0, siftup (h[0 := x]) 0)"
  by (cases h) (simp_all add: heapreplace_def)

lemma push_top_total: "\<exists>h'. push_top h item K = Inr h'"
  by (cases h) (auto simp: push_top_def heapreplace_def)

lemma scan_file_total: "\<exists>l' s'. scan_file os opts nm pth sz l s = Inr (l', s')"
proof -
  obtain g where g: "push_top (global_top s) (sz, pth) (global_top_files opts) = Inr g"
    using push_top_total by blast
  show ?thesis
    by (cases "local_top l") (auto simp: scan_file_def Let_def g heapreplace_def)
qed

lemma scan_file_state:
  assumes "scan_file os opts nm pth sz l s = Inr (l', s')"
  shows "files s' = files s + 1" "bytes_scanned s' = bytes_scanned s + sz"
    "ext_stats s' = ext_add (ext_stats s) (ext_key os nm) sz"
    "dirs s' = dirs s" "polls s' = polls s"
    "push_top (global_top s) (sz, pth) (global_top_files opts) = Inr (global_top s')"
  using assms
  by (auto simp: scan_file_def Let_def split: sum.splits if_splits list.splits prod.splits)

lemma cancelled_state:
  "files (snd (cancelled opts s)) = files s" "bytes_scanned (snd (cancelled opts s)) = bytes_scanned s"
  "ext_stats (snd (cancelled opts s)) = ext_stats s" "dirs (snd (cancelled opts s)) = dirs s"
  "global_top (snd (cancelled opts s)) = global_top s"
  by (simp_all add: cancelled_def split: option.splits)

lemma entered_state:
  "files (entered s) = files s" "bytes_scanned (entered s) = bytes_scanned s"
  "ext_stats (entered s) = ext_stats s" "dirs (entered s) = dirs s + 1"
  "global_top (entered s) = global_top s" "polls (entered s) = polls s"
  by (simp_all add: entered_def)

lemma scan_total:
  shows "\<exists>n s'. scan_dir os opts p listing s = Inr (n, s')"
    and "\<exists>l' b s'. scan_loop os opts p entries l s = Inr (l', b, s')"
proof (induction p listing s and p entries l s rule: scan_induct[of opts _ os])
  case (dir p listing s)
  show ?case
  proof (cases "fst (cancelled opts s) \<or> listing = ScandirError")
    case True
    then show ?thesis by (simp add: scan_dir_stop)
  next
    case False
    then obtain entries fails where li: "listing = Scandir entries fails"
      by (cases listing) auto
    obtain l br s2 where "scan_loop os opts p entries (fresh_locals os p) (snd (cancelled opts s)) = Inr (l, br, s2)"
      using dir[OF li] False by blast
    then show ?thesis using False li by (simp add: scan_dir_list)
  qed
next
  case (nil p l s)
  show ?case by auto
next
  case (cons p nm pth symlink st rest l s)
  show ?case
  proof (cases "fst (cancelled opts s)")
    case True
    then show ?thesis by (auto simp add: scan_loop_cancel)
  next
    case nc: False
    show ?thesis
    proof (cases "skips opts symlink \<or> st = StatError")
      case True
      then show ?thesis using cons(1)[OF nc True] by (simp add: scan_loop_skip[OF nc True])
    next
      case False
      then have ns: "\<not> skips opts symlink" by simp
      show ?thesis
      proof (cases st)
        case StatError
        then show ?thesis using False by simp
      next
        case (StatFile sz)
        obtain l2 s2 where sf: "scan_file os opts nm pth sz l (snd (cancelled opts s)) = Inr (l2, s2)"
          using scan_file_total by blast
        show ?thesis using cons(4)[OF nc ns StatFile sf]
          by (simp add: scan_loop_file[OF nc ns StatFile sf])
      next
        case (StatDir sub)
        obtain child s2 where sd: "scan_dir os opts pth sub (entered (snd (cancelled opts s))) = Inr (child, s2)"
          using cons(2)[OF nc ns StatDir] by blast
        show ?thesis using cons(3)[OF nc ns StatDir sd]
          by (simp add: scan_loop_dir[OF nc ns StatDir sd])
      qed
    qed
  qed
qed

lemma scan_invariant:
  assumes c: "\<And>s. I s \<Longrightarrow> I (snd (cancelled opts s))"
    and d: "\<And>s. I s \<Longrightarrow> I (entered s)"
    and f: "\<And>nm pth sz l s l' s'. I s \<Longrightarrow> scan_file os opts nm pth sz l s = Inr (l', s') \<Longrightarrow> I s'"
  shows "I s \<longrightarrow> (\<forall>n s'. scan_dir os opts p listing s = Inr (n, s') \<longrightarrow> I s')"
    and "I s \<longrightarrow> (\<forall>l' b s'. scan_loop os opts p entries l s = Inr (l', b, s') \<longrightarrow> I s')"
proof (induction p listing s and p entries l s rule: scan_induct[of opts _ os])
  case (dir p listing s)
  show ?case
  proof (intro impI allI)
    fix n s' assume I: "I s" and sd: "scan_dir os opts p listing s = Inr (n, s')"
    show "I s'"
    proof (cases "fst (cancelled opts s) \<or> listing = ScandirError")
      case True
      then have "s' = snd (cancelled opts s)" using sd by (simp add: scan_dir_stop)
      then show ?thesis using c[OF I] by simp
    next
      case False
      then obtain entries fails where li: "listing = Scandir entries fails"
        by (cases listing) auto
      obtain l br s2 where lp: "scan_loop os opts p entries (fresh_locals os p) (snd (cancelled opts s)) = Inr (l, br, s2)"
        using scan_total(2) by blast
      then have "s' = s2" using sd False li by (simp add: scan_dir_list)
      then show ?thesis using dir[OF li] False c[OF I] lp by blast
    qed
  qed
next
  case (nil p l s)
  show ?case by simp
next
  case (cons p nm pth symlink st rest l s)
  show ?case
  proof (intro impI allI)
    fix l' b s' assume I: "I s"
      and sl: "scan_loop os opts p (DirEntry nm pth symlink st # rest) l s = Inr (l', b, s')"
    note I1 = c[OF I]
    show "I s'"
    proof (cases "fst (cancelled opts s)")
      case True
      then show ?thesis using sl I1 by (simp add: scan_loop_cancel)
    next
      case nc: False
      show ?thesis
      proof (cases "skips opts symlink \<or> st = StatError")
        case True
        then have "scan_loop os opts p rest l (snd (cancelled opts s)) = Inr (l', b, s')"
          using sl by (simp add: scan_loop_skip[OF nc True])
        then show ?thesis using cons(1)[OF nc True] I1 by blast
      next
        case False
        then have ns: "\<not> skips opts symlink" by simp
        show ?thesis
        proof (cases st)
          case StatError
          then show ?thesis using False by simp
        next
          case (StatFile sz)
          obtain l2 s2 where sf: "scan_file os opts nm pth sz l (snd (cancelled opts s)) = Inr (l2, s2)"
            using scan_file_total by blast
          have lp: "scan_loop os opts p rest l2 s2 = Inr (l', b, s')"
            using sl by (simp add: scan_loop_file[OF nc ns StatFile sf])
          have "I s2" using f[OF I1 sf] .
          then show ?thesis using cons(4)[OF nc ns StatFile sf] lp by blast
        next
          case (StatDir sub)
          obtain child s2 where sd: "scan_dir os opts pth sub (entered (snd (cancelled opts s))) = Inr (child, s2)"
            using scan_total(1) by blast
          have lp: "scan_loop os opts p rest (attach l child) s2 = Inr (l', b, s')"
            using sl by (simp add: scan_loop_dir[OF nc ns StatDir sd])
          have "I s2" using cons(2)[OF nc ns StatDir] d[OF I1] sd by blast
          then show ?thesis using cons(3)[OF nc ns StatDir sd] lp by blast
        qed
      qed
    qed
  qed
qed

lemma scan_roots_invariant:
  assumes c: "\<And>s. I s \<Longrightarrow> I (snd (cancelled opts s))"
    and d: "\<And>s p listing n s'. I s \<Longrightarrow> scan_dir os opts p listing s = Inr (n, s') \<Longrightarrow> I s'"
  shows "I s \<Longrightarrow> scan_roots os opts ps r s = Inr (r', s') \<Longrightarrow> I s'"
proof (induction ps arbitrary: r s)
  case Nil
  then show ?case by simp
next
  case (Cons p ps)
  obtain c0 s1 where cs: "cancelled opts s = (c0, s1)" by (cases "cancelled opts s") auto
  have I1: "I s1" using c[OF Cons.prems(1)] cs by simp
  show ?case
  proof (cases c0)
    case True
    then show ?thesis using Cons.prems(2) cs I1 by simp
  next
    case False
    obtain child s2 where sd: "scan_dir os opts p (scandir os p) s1 = Inr (child, s2)"
      using scan_total(1) by blast
    then have "scan_roots os opts ps (add_size (append_child r child) (node_size child)) s2 = Inr (r', s')"
      using Cons.prems(2) cs False by simp
    then show ?thesis using Cons.IH d[OF I1 sd] by blast
  qed
qed

subsection \<open>Size conservation\<close>

text \<open>
  C1 (the size of a directory node is the sum of the sizes of its children) fails on the
  code. With the default options, the directory \<^verbatim>\<open>/d\<close> of \<^const>\<open>ascending_dir\<close> gets the size
  3321 = 1 + ... + 81, while its 80 children (the files 81 down to 2, no overflow node) sum
  to 3320: the file of size 1 leaves the heap through \<^verbatim>\<open>heapreplace\<close> and its size is added
  nowhere.
\<close>

theorem size_conservation_failing_input:
  "map_sum id dir_summary (scan_paths (posix ascending_dir) [''/d''] default_opts)
     = Inr (3321, 3320, 80)"
  by code_simp

subsection \<open>Invalid input\<close>

lemma scan_dir_unlistable:
  "scan_dir os opts q ScandirError s
     = Inr (Node (display_name os q) q True 0 [], snd (cancelled opts s))"
  by (simp add: scan_dir_unfold empty_node_def)

text \<open>
  C3 as stated (a root path that does not exist is reported, and never gives a
  success-shaped result) fails: \<^verbatim>\<open>/missing\<close> does not exist, and the scan returns a
  \<^verbatim>\<open>ScanResult\<close>.
\<close>

theorem missing_path_counterexample:
  "scan_paths (posix nothing_exists) [''/missing''] default_opts
     = Inr \<lparr>files = 0, dirs = 0, bytes_scanned = 0, ext_stats = [],
            root = Node ''missing'' ''/missing'' True 0
                     [Node ''missing'' ''/missing'' True 0 []],
            top_files = [], scanned_paths = [''/missing'']\<rparr>"
  by code_simp

text \<open>
  C3, amended: when no root path is left after the empty strings are dropped,
  \<^verbatim>\<open>scan_paths\<close> raises \<^verbatim>\<open>IndexError\<close> (before any directory is read); a root path that
  cannot be listed, a missing one included, is not reported: \<^verbatim>\<open>scan_dir\<close> returns for it a
  directory node of size 0 without children, and the scan of that single path returns a
  \<^verbatim>\<open>ScanResult\<close> with that node as the only child of the root.
\<close>

theorem invalid_input_outcomes:
  "(normalize_paths os paths = [] \<longrightarrow> scan_paths os paths opts = Inl IndexError) \<and>
   scan_dir os opts q ScandirError s
     = Inr (Node (display_name os q) q True 0 [], snd (cancelled opts s)) \<and>
   (normalize_paths os paths = [q] \<and> scandir os q = ScandirError \<and> cancel_flag opts = None \<longrightarrow>
      scan_paths os paths opts
        = Inr \<lparr>files = 0, dirs = 0, bytes_scanned = 0, ext_stats = [],
               root = Node (display_name os q) q True 0 [Node (display_name os q) q True 0 []],
               top_files = [], scanned_paths = [q]\<rparr>)"
proof (intro conjI impI)
  assume "normalize_paths os paths = []"
  then show "scan_paths os paths opts = Inl IndexError"
    by (simp add: scan_paths_def root_name_def)
next
  show "scan_dir os opts q ScandirError s
          = Inr (Node (display_name os q) q True 0 [], snd (cancelled opts s))"
    by (rule scan_dir_unlistable)
next
  assume a: "normalize_paths os paths = [q] \<and> scandir os q = ScandirError \<and> cancel_flag opts = None"
  then have c: "cancelled opts st = (False, st)" for st
    by (simp add: cancelled_def)
  show "scan_paths os paths opts
        = Inr \<lparr>files = 0, dirs = 0, bytes_scanned = 0, ext_stats = [],
               root = Node (display_name os q) q True 0 [Node (display_name os q) q True 0 []],
               top_files = [], scanned_paths = [q]\<rparr>"
    using a by (simp add: scan_paths_def root_name_def c add_size_def append_child_def scan_dir_unlistable)
qed

theorem invalid_input_outcomes_witness:
  "normalize_paths (posix nothing_exists) [] = [] \<and>
   scan_paths (posix nothing_exists) [] default_opts = Inl IndexError \<and>
   normalize_paths (posix nothing_exists) [''/missing''] = [''/missing''] \<and>
   scandir (posix nothing_exists) ''/missing'' = ScandirError \<and>
   cancel_flag default_opts = None \<and>
   scan_paths (posix nothing_exists) [''/missing''] default_opts
     = Inr \<lparr>files = 0, dirs = 0, bytes_scanned = 0, ext_stats = [],
            root = Node (display_name (posix nothing_exists) ''/missing'') ''/missing'' True 0
                     [Node (display_name (posix nothing_exists) ''/missing'') ''/missing'' True 0 []],
            top_files = [], scanned_paths = [''/missing'']\<rparr>"
proof -
  have 1: "normalize_paths (posix nothing_exists) [] = []"
    by (simp add: normalize_paths_def)
  have 2: "normalize_paths (posix nothing_exists) [''/missing''] = [''/missing'']"
    by (simp add: normalize_paths_def posix_def)
  have 3: "scandir (posix nothing_exists) ''/missing'' = ScandirError"
    by (simp add: posix_def nothing_exists_def)
  have 4: "cancel_flag default_opts = None"
    by (simp add: default_opts_def)
  show ?thesis
    using invalid_input_outcomes [of "posix nothing_exists" "[]" default_opts "''/missing''"]
      invalid_input_outcomes [of "posix nothing_exists" "[''/missing'']" default_opts "''/missing''"]
      1 2 3 4
    by simp
qed

subsection \<open>Cancellation\<close>

text \<open>
  C4 as stated (a scan cancelled before any entry is processed reports a cancelled
  outcome, and a cancelled scan can be told from a finished one) fails: the scan of
  \<^verbatim>\<open>/d\<close> cancelled at the first poll returns a \<^verbatim>\<open>ScanResult\<close> with an empty tree, and the
  scan of a directory with a file, cancelled at the second poll, returns what the
  finished scan of an empty directory returns.
\<close>

theorem cancelled_scan_counterexample:
  "scan_paths (posix one_file_dir) [''/d''] (cancelling cancel_at_once)
     = Inr \<lparr>files = 0, dirs = 0, bytes_scanned = 0, ext_stats = [],
            root = Node ''d'' ''/d'' True 0 [],
            top_files = [], scanned_paths = [''/d'']\<rparr> \<and>
   scan_paths (posix one_file_dir) [''/d''] (cancelling cancel_from_second_poll)
     = scan_paths (posix empty_dir) [''/d''] default_opts"
  by code_simp

text \<open>
  C4, amended: \<^verbatim>\<open>scan_paths\<close> has no cancelled outcome. When the predicate answers true
  at its first call (and there is a root path), \<^verbatim>\<open>scan_paths\<close> returns a \<^verbatim>\<open>ScanResult\<close>
  whose root has size 0 and no children, with all counters 0 and no extension or top
  file; nothing in the result says that the scan was cancelled.
\<close>

theorem cancelled_at_once_result:
  assumes "root_name os (normalize_paths os paths) = Inr name"
    and "cancel_flag opts = Some f" and "f 0"
  shows "scan_paths os paths opts
           = Inr \<lparr>files = 0, dirs = 0, bytes_scanned = 0, ext_stats = [],
                  root = Node name (join '';'' (normalize_paths os paths)) True 0 [],
                  top_files = [], scanned_paths = normalize_paths os paths\<rparr>"
proof -
  obtain p ps where ps: "normalize_paths os paths = p # ps"
    using assms(1) by (cases "normalize_paths os paths") (auto simp: root_name_def)
  have "scan_roots os opts (p # ps) r
          \<lparr>files = 0, dirs = 0, bytes_scanned = 0, ext_stats = [], global_top = [], polls = 0\<rparr>
        = Inr (r, \<lparr>files = 0, dirs = 0, bytes_scanned = 0, ext_stats = [], global_top = [],
                   polls = 1\<rparr>)" for r
    using assms(2,3) by (simp add: cancelled_def)
  then show ?thesis
    using assms(1) ps by (simp add: scan_paths_def Let_def)
qed

theorem cancelled_at_once_result_witness:
  "root_name (posix one_file_dir) (normalize_paths (posix one_file_dir) [''/d'']) = Inr ''d'' \<and>
   cancel_flag (cancelling cancel_at_once) = Some cancel_at_once \<and> cancel_at_once 0 \<and>
   scan_paths (posix one_file_dir) [''/d''] (cancelling cancel_at_once)
     = Inr \<lparr>files = 0, dirs = 0, bytes_scanned = 0, ext_stats = [],
            root = Node ''d'' (join '';'' (normalize_paths (posix one_file_dir) [''/d''])) True 0 [],
            top_files = [], scanned_paths = normalize_paths (posix one_file_dir) [''/d'']\<rparr>"
proof -
  have 1: "root_name (posix one_file_dir) (normalize_paths (posix one_file_dir) [''/d'']) = Inr ''d''"
    by code_simp
  have 2: "cancel_flag (cancelling cancel_at_once) = Some cancel_at_once"
    by (simp add: cancelling_def)
  have 3: "cancel_at_once 0"
    by (simp add: cancel_at_once_def)
  show ?thesis
    using cancelled_at_once_result [OF 1 2 3] 1 2 3 by simp
qed

subsection \<open>The treemap layout on degenerate input\<close>

declare squarify_loop.simps [simp del] spec_squarify_loop.simps [simp del]

text \<open>The equations that evaluate \<^const>\<open>squarify\<close> on a concrete input.\<close>

lemmas treemap_eval =
  squarify_def normalize_sizes_def squarify_loop.simps row_gets_worse_def worst_def
  layout_row_def float_mul_def float_div_def underflow_def leaf_def Let_def

text \<open>
  C5 as stated (a zero-area rectangle gives an empty result) fails: one child of
  positive size in the rectangle of width 0 and height 0 gets a rectangle.
\<close>

theorem zero_area_counterexample:
  "squarify [leaf ''a'' 1] 0 0 0 0 = Inr [(Rect 0 0 0 0, leaf ''a'' 1)]"
  by (simp add: treemap_eval)

text \<open>With two children of positive size the same rectangle makes \<^verbatim>\<open>_worst\<close> divide by
  zero: its two divisions are the ones the code does not guard.\<close>

lemma zero_area_two_children_raise:
  "squarify [leaf ''a'' 1, leaf ''b'' 1] 0 0 0 0 = Inl ZeroDivisionError"
  by (simp add: treemap_eval)

lemma underflow_zero: "underflow 0 = 0"
  by (simp add: underflow_def)

lemma float_mul_zero: "x * y = 0 \<Longrightarrow> float_mul x y = 0"
  unfolding float_mul_def by (simp only: underflow_zero)

lemma float_div_zero: "float_div 0 y = 0"
  by (simp add: float_div_def underflow_zero)

lemma squarify_loop_stop:
  "\<not> i < length nodes \<Longrightarrow>
     squarify_loop nodes areas i row row_nodes remaining out = Inr (row, row_nodes, remaining, out)"
  by (subst squarify_loop.simps) simp

lemma squarify_loop_first:
  "i < length nodes \<Longrightarrow>
     squarify_loop nodes areas i [] [] remaining out
       = squarify_loop nodes areas (i + 1) [areas ! i] [nodes ! i] remaining out"
  by (subst squarify_loop.simps) (simp add: row_gets_worse_def Let_def)

text \<open>
  C5, amended: for an empty children list and for children whose sizes are all
  non-positive, \<^verbatim>\<open>squarify\<close> returns the empty list without raising, whatever the
  rectangle; for a rectangle of area zero and exactly one child of positive size it
  returns one pair, whose rectangle has width and height 0.
\<close>

theorem squarify_degenerate:
  "((\<forall>n \<in> set nodes. node_size n \<le> 0) \<longrightarrow> squarify nodes x y w h = Inr []) \<and>
   (w * h = 0 \<and> filter (\<lambda>n. node_size n > 0) nodes = [n] \<longrightarrow>
      squarify nodes x y w h = Inr [(Rect x y 0 0, n)])"
proof (intro conjI impI)
  assume "\<forall>n \<in> set nodes. node_size n \<le> 0"
  then have "filter (\<lambda>n. node_size n > 0) nodes = []"
    by (auto simp: filter_empty_conv)
  then show "squarify nodes x y w h = Inr []"
    by (simp add: squarify_def normalize_sizes_def squarify_loop_stop)
next
  assume a: "w * h = 0 \<and> filter (\<lambda>n. node_size n > 0) nodes = [n]"
  have loop: "squarify_loop [n] [0] 0 [] [] (Rect x y w h) [] = Inr ([0], [n], Rect x y w h, [])"
    by (simp add: squarify_loop_first squarify_loop_stop)
  have lay: "fst (layout_row [0] (Rect x y w h) b) = [Rect x y 0 0]" for b
    by (simp add: layout_row_def float_div_zero)
  have "float_mul w h = 0"
    using a by (simp add: float_mul_zero)
  then have norm: "normalize_sizes [n] (float_mul w h) = [0]"
    by (simp add: normalize_sizes_def Let_def float_mul_zero float_div_zero)
  have sorted_nodes: "sort_key (\<lambda>n. - node_size n) (filter (\<lambda>n. node_size n > 0) nodes) = [n]"
    using a by simp
  obtain laid remaining' where lr: "layout_row [0] (Rect x y w h) (h \<le> w) = (laid, remaining')"
    by (cases "layout_row [0] (Rect x y w h) (h \<le> w)") auto
  then have laid: "laid = [Rect x y 0 0]"
    using lay [of "h \<le> w"] by simp
  show "squarify nodes x y w h = Inr [(Rect x y 0 0, n)]"
    unfolding squarify_def sorted_nodes Let_def norm loop
    by (simp add: lr laid)
qed

theorem squarify_degenerate_witness:
  "squarify [leaf ''a'' 0, leaf ''b'' (- 1)] 0 0 4 5 = Inr [] \<and>
   (4::real) * 0 = 0 \<and>
   filter (\<lambda>n. node_size n > 0) [leaf ''a'' 0, leaf ''b'' 2] = [leaf ''b'' 2] \<and>
   squarify [leaf ''a'' 0, leaf ''b'' 2] 0 0 4 0 = Inr [(Rect 0 0 0 0, leaf ''b'' 2)]"
proof -
  have 1: "\<forall>n \<in> set [leaf ''a'' 0, leaf ''b'' (- 1)]. node_size n \<le> 0"
    by (simp add: leaf_def)
  have 2: "filter (\<lambda>n. node_size n > 0) [leaf ''a'' 0, leaf ''b'' 2] = [leaf ''b'' 2]"
    by (simp add: leaf_def)
  show ?thesis
    using squarify_degenerate [of "[leaf ''a'' 0, leaf ''b'' (- 1)]" 0 0 4 5 "leaf ''b'' 2"]
      squarify_degenerate [of "[leaf ''a'' 0, leaf ''b'' 2]" 0 0 4 0 "leaf ''b'' 2"] 1 2
    by simp
qed

subsection \<open>The treemap layout and the area\<close>

text \<open>A float of magnitude at least 2 to the power -1074 does not underflow; neither does
  a product or a quotient with such a lower bound.\<close>

lemma underflow_id: "1 / 2 ^ 1074 \<le> r \<Longrightarrow> underflow r = r"
proof -
  assume a: "1 / 2 ^ 1074 \<le> r"
  have "(1::real) / 2 ^ 1075 < 1 / 2 ^ 1074" by simp
  then have "\<not> \<bar>r\<bar> \<le> 1 / 2 ^ 1075" using a by linarith
  then show ?thesis unfolding underflow_def by (simp only: if_False)
qed

lemma float_mul_exact:
  assumes "l1 \<le> x" "l2 \<le> y" "0 < l1" "0 < l2" "1 / 2 ^ 1074 \<le> l1 * l2"
  shows "float_mul x y = x * y"
proof -
  have "l1 * l2 \<le> x * y"
    using assms(1-4) by (intro mult_mono) simp_all
  then have "1 / 2 ^ 1074 \<le> x * y" using assms(5) by (rule order_trans[rotated])
  then show ?thesis unfolding float_mul_def by (rule underflow_id)
qed

lemma float_div_exact:
  assumes "l \<le> x" "0 < y" "y \<le> u" "0 < l" "1 / 2 ^ 1074 \<le> l / u"
  shows "float_div x y = x / y"
proof -
  have "l / u \<le> x / y"
    using assms(1-4) by (intro frac_le) simp_all
  then have "1 / 2 ^ 1074 \<le> x / y" using assms(5) by (rule order_trans[rotated])
  then show ?thesis unfolding float_div_def by (rule underflow_id)
qed

lemma sum_list_lower:
  "xs \<noteq> [] \<Longrightarrow> \<forall>a \<in> set xs. l \<le> a \<Longrightarrow> (0::real) \<le> l \<Longrightarrow> l \<le> sum_list xs"
proof (induction xs)
  case Nil
  then show ?case by simp
next
  case (Cons a xs)
  have "0 \<le> sum_list xs"
    using Cons.prems by (intro sum_list_nonneg) auto
  then show ?case using Cons.prems by simp
qed

lemma side_lower:
  assumes "(1::real) / 2 ^ 192 \<le> rw * rh" "0 < rw" "0 < rh" "rh \<le> 2 ^ 64"
  shows "1 / 2 ^ 256 \<le> rw"
proof -
  have "rw * rh \<le> rw * 2 ^ 64"
    using assms(2,4) by (intro mult_left_mono) simp_all
  then have "1 / 2 ^ 192 \<le> rw * 2 ^ 64" using assms(1) by linarith
  then show ?thesis by (simp add: field_simps)
qed

lemma place_across_areas:
  "0 < h \<Longrightarrow> h \<le> 2 ^ 384 \<Longrightarrow> \<forall>a \<in> set row. 1 / 2 ^ 192 \<le> a \<Longrightarrow>
     map rect_area (place_across row x y h) = row \<and> length (place_across row x y h) = length row"
proof (induction row arbitrary: x)
  case Nil
  then show ?case by simp
next
  case (Cons a row)
  have "float_div a h = a / h"
    by (rule float_div_exact[of "1 / 2 ^ 192" a h "2 ^ 384"]) (use Cons.prems in simp_all)
  then show ?case using Cons by (simp add: rect_area_def Let_def)
qed

lemma place_down_areas:
  "0 < w \<Longrightarrow> w \<le> 2 ^ 384 \<Longrightarrow> \<forall>a \<in> set row. 1 / 2 ^ 192 \<le> a \<Longrightarrow>
     map rect_area (place_down row x y w) = row \<and> length (place_down row x y w) = length row"
proof (induction row arbitrary: y)
  case Nil
  then show ?case by simp
next
  case (Cons a row)
  have "float_div a w = a / w"
    by (rule float_div_exact[of "1 / 2 ^ 192" a w "2 ^ 384"]) (use Cons.prems in simp_all)
  then show ?case using Cons by (simp add: rect_area_def Let_def)
qed

lemma thickness_exact:
  assumes "0 < rw" "rw \<le> 2 ^ 64" "0 < rh" "rh \<le> 2 ^ 64"
    and "1 / 2 ^ 192 \<le> s" "s \<le> rw * rh"
  shows "float_div s rw = s / rw" "0 < s / rw" "s / rw \<le> 2 ^ 384" "s / rw \<le> rh"
proof -
  show "float_div s rw = s / rw"
    by (rule float_div_exact[of "1 / 2 ^ 192" s rw "2 ^ 64"]) (use assms in simp_all)
  have spos: "0 < s" using assms(5) by (rule less_le_trans[rotated]) simp
  then show "0 < s / rw" using assms(1) by simp
  show le: "s / rw \<le> rh" using assms(1,6) by (simp add: field_simps)
  have "rh \<le> 2 ^ 384" using assms(4) by (rule order_trans) simp
  then show "s / rw \<le> 2 ^ 384" using le by linarith
qed

lemma layout_row_props:
  assumes "0 < rect_w rect" "rect_w rect \<le> 2 ^ 64" "0 < rect_h rect" "rect_h rect \<le> 2 ^ 64"
    and "row \<noteq> []" "\<forall>a \<in> set row. 1 / 2 ^ 192 \<le> a"
    and "sum_list row \<le> rect_area rect"
    and "layout_row row rect b = (laid, remaining')"
  shows "map rect_area laid = row" "length laid = length row"
    "rect_area remaining' = rect_area rect - sum_list row"
    "rect_w remaining' \<le> 2 ^ 64" "rect_h remaining' \<le> 2 ^ 64"
    "sum_list row < rect_area rect \<Longrightarrow> 0 < rect_w remaining' \<and> 0 < rect_h remaining'"
proof -
  let ?s = "sum_list row"
  have s: "1 / 2 ^ 192 \<le> ?s"
    using assms(5,6) by (intro sum_list_lower) simp_all
  have fit: "?s \<le> rect_w rect * rect_h rect" "?s \<le> rect_h rect * rect_w rect"
    using assms(7) by (simp_all add: rect_area_def mult.commute)
  note tw = thickness_exact[OF assms(1-4) s fit(1)]
  note th = thickness_exact[OF assms(3,4,1,2) s fit(2)]
  have r: "remaining' =
      (if b then Rect (rect_x rect) (rect_y rect + ?s / rect_w rect) (rect_w rect)
                  (max 0 (rect_h rect - ?s / rect_w rect))
       else Rect (rect_x rect + ?s / rect_h rect) (rect_y rect)
                  (max 0 (rect_w rect - ?s / rect_h rect)) (rect_h rect))"
    and l: "laid =
      (if b then place_across row (rect_x rect) (rect_y rect) (?s / rect_w rect)
       else place_down row (rect_x rect) (rect_y rect) (?s / rect_h rect))"
    using assms(1,3,8) by (auto simp: layout_row_def Let_def tw(1) th(1))
  show "map rect_area laid = row" "length laid = length row"
    unfolding l
    using place_across_areas[OF tw(2,3) assms(6)] place_down_areas[OF th(2,3) assms(6)]
    by simp_all
  have a1: "rect_w rect * (rect_h rect - ?s / rect_w rect) = rect_w rect * rect_h rect - ?s"
    using assms(1) by (simp add: field_simps)
  have a2: "(rect_w rect - ?s / rect_h rect) * rect_h rect = rect_w rect * rect_h rect - ?s"
    using assms(3) by (simp add: field_simps)
  show "rect_area remaining' = rect_area rect - sum_list row"
    using tw(4) th(4) a1 a2 by (simp add: r rect_area_def max_def)
  show "rect_w remaining' \<le> 2 ^ 64" "rect_h remaining' \<le> 2 ^ 64"
    using assms(2,4) tw(2,4) th(2,4) by (auto simp: r max_def)
  show "0 < rect_w remaining' \<and> 0 < rect_h remaining'" if lt: "sum_list row < rect_area rect"
  proof -
    have "?s / rect_w rect < rect_h rect" "?s / rect_h rect < rect_w rect"
      using assms(1,3) lt by (simp_all add: rect_area_def field_simps)
    then show ?thesis using assms(1,3) by (simp add: r)
  qed
qed

lemma worst_defined:
  assumes "row \<noteq> []" "\<forall>a \<in> set row. 1 / 2 ^ 192 \<le> a" "1 / 2 ^ 256 \<le> short"
  shows "\<exists>r. worst row short = Inr (Finite r)"
proof -
  have s: "1 / 2 ^ 192 \<le> sum_list row"
    using assms(1,2) by (intro sum_list_lower) simp_all
  have ss: "float_mul (sum_list row) (sum_list row) = sum_list row * sum_list row"
    by (rule float_mul_exact[OF s s]) simp_all
  have "0 < sum_list row" using s by (rule less_le_trans[rotated]) simp
  then have 1: "sum_list row * sum_list row \<noteq> 0" by simp
  have w2: "float_mul short short = short * short"
    by (rule float_mul_exact[OF assms(3) assms(3)]) simp_all
  have "(1 / 2 ^ 256) * (1 / 2 ^ 256) \<le> short * short"
    using assms(3) by (intro mult_mono) simp_all
  then have w2l: "1 / 2 ^ 512 \<le> short * short" by simp
  have "Min (set row) \<in> set row" using assms(1) by simp
  then have rmin: "1 / 2 ^ 192 \<le> Min (set row)" using assms(2) by blast
  have m: "float_mul (short * short) (Min (set row)) = short * short * Min (set row)"
    by (rule float_mul_exact[OF w2l rmin]) simp_all
  have "0 < short" using assms(3) by (rule less_le_trans[rotated]) simp
  moreover have "0 < Min (set row)" using rmin by (rule less_le_trans[rotated]) simp
  ultimately have 2: "short * short * Min (set row) \<noteq> 0" by simp
  show ?thesis
    unfolding worst_def Let_def w2 ss m using 1 2 assms(1) by simp
qed

lemma row_gets_worse_defined:
  assumes "\<forall>a \<in> set row. 1 / 2 ^ 192 \<le> a" "1 / 2 ^ 192 \<le> a" "1 / 2 ^ 256 \<le> short"
  shows "\<exists>b. row_gets_worse row (row @ [a]) short = Inr b"
proof (cases "row = []")
  case True
  then show ?thesis by (auto simp add: row_gets_worse_def)
next
  case False
  obtain r1 where "worst (row @ [a]) short = Inr (Finite r1)"
    using worst_defined[of "row @ [a]" short] assms by auto
  moreover obtain r2 where "worst row short = Inr (Finite r2)"
    using worst_defined[of row short] assms False by auto
  ultimately show ?thesis using False by (simp add: row_gets_worse_def)
qed

lemma drop_take_snoc:
  "j \<le> i \<Longrightarrow> i < length xs \<Longrightarrow> drop j (take i xs) @ [xs ! i] = drop j (take (Suc i) xs)"
  by (simp add: take_Suc_conv_app_nth)

lemma drop_split:
  "j \<le> i \<Longrightarrow> i \<le> length xs \<Longrightarrow> drop j xs = drop j (take i xs) @ drop i xs"
proof -
  assume a: "j \<le> i" "i \<le> length xs"
  have "drop j xs = drop j (take i xs @ drop i xs)" by simp
  also have "\<dots> = drop j (take i xs) @ drop (j - length (take i xs)) (drop i xs)" by (rule drop_append)
  also have "\<dots> = drop j (take i xs) @ drop i xs" using a by simp
  finally show ?thesis .
qed

lemma take_split:
  "j \<le> i \<Longrightarrow> take j xs @ drop j (take i xs) = take i xs"
  by (metis append_take_drop_id min.absorb_iff2 take_take min.commute)

lemma squarify_loop_tiles:
  assumes "length areas = length nodes" and "\<forall>a \<in> set areas. 1 / 2 ^ 192 \<le> a"
    and "j + length row = i" and "i \<le> length nodes"
    and "row = drop j (take i areas)" and "row_nodes = drop j (take i nodes)"
    and "map snd out = take j nodes" and "map (rect_area \<circ> fst) out = take j areas"
    and "rect_area remaining = sum_list (drop j areas)"
    and "j < length nodes \<longrightarrow>
           0 < rect_w remaining \<and> 0 < rect_h remaining \<and>
           rect_w remaining \<le> 2 ^ 64 \<and> rect_h remaining \<le> 2 ^ 64"
  shows "\<exists>row' row_nodes' remaining' out' j'.
           squarify_loop nodes areas i row row_nodes remaining out
             = Inr (row', row_nodes', remaining', out') \<and>
           j' \<le> length nodes \<and> row' = drop j' areas \<and> row_nodes' = drop j' nodes \<and>
           map snd out' = take j' nodes \<and> map (rect_area \<circ> fst) out' = take j' areas \<and>
           rect_area remaining' = sum_list (drop j' areas) \<and>
           (j' < length nodes \<longrightarrow>
              0 < rect_w remaining' \<and> 0 < rect_h remaining' \<and>
              rect_w remaining' \<le> 2 ^ 64 \<and> rect_h remaining' \<le> 2 ^ 64)"
  using assms
proof (induction nodes areas i row row_nodes remaining out arbitrary: j rule: squarify_loop.induct)
  case (1 nodes areas i row row_nodes remaining out)
  note len = "1.prems"(1) and pos = "1.prems"(2) and ji = "1.prems"(3) and il = "1.prems"(4)
    and row = "1.prems"(5) and rn = "1.prems"(6) and o1 = "1.prems"(7) and o2 = "1.prems"(8)
    and ra = "1.prems"(9) and rd = "1.prems"(10)
  have jle: "j \<le> i" using ji by simp
  show ?case
  proof (cases "i < length nodes")
    case False
    then have i: "i = length nodes" using il by simp
    have "squarify_loop nodes areas i row row_nodes remaining out = Inr (row, row_nodes, remaining, out)"
      using False by (subst squarify_loop.simps) simp
    moreover have "row = drop j areas" "row_nodes = drop j nodes"
      using row rn i len by simp_all
    ultimately show ?thesis using o1 o2 ra rd jle i by blast
  next
    case True
    define a where "a = areas ! i"
    define n where "n = nodes ! i"
    define m where "m = min (rect_w remaining) (rect_h remaining)"
    define short where "short = (if m = 0 then 1 else m)"
    have jl: "j < length nodes" using jle True by simp
    have dims: "0 < rect_w remaining" "rect_w remaining \<le> 2 ^ 64"
      "0 < rect_h remaining" "rect_h remaining \<le> 2 ^ 64"
      using rd jl by simp_all
    have apos: "1 / 2 ^ 192 \<le> a" using pos True len by (simp add: a_def)
    have rowpos: "\<forall>x \<in> set row. 1 / 2 ^ 192 \<le> x"
      using pos row by (auto dest!: in_set_dropD in_set_takeD)
    have "drop j areas \<noteq> []" using jl len by simp
    moreover have "\<forall>x \<in> set (drop j areas). 1 / 2 ^ 192 \<le> x"
      using pos by (auto dest: in_set_dropD)
    ultimately have "1 / 2 ^ 192 \<le> sum_list (drop j areas)"
      by (intro sum_list_lower) simp_all
    then have area: "1 / 2 ^ 192 \<le> rect_w remaining * rect_h remaining"
      "1 / 2 ^ 192 \<le> rect_h remaining * rect_w remaining"
      using ra by (simp_all add: rect_area_def mult.commute)
    have "1 / 2 ^ 256 \<le> rect_w remaining" "1 / 2 ^ 256 \<le> rect_h remaining"
      using side_lower[OF area(1) dims(1,3,4)] side_lower[OF area(2) dims(3,1,2)] by simp_all
    then have ml: "1 / 2 ^ 256 \<le> m" by (simp add: m_def)
    then have "0 < m" by (rule less_le_trans[rotated]) simp
    then have short: "1 / 2 ^ 256 \<le> short" using ml by (simp add: short_def)
    obtain b where b: "row_gets_worse row (row @ [a]) short = Inr b"
      using row_gets_worse_defined[OF rowpos apos short] by blast
    have b': "row_gets_worse row (row @ [areas ! i])
                (if min (rect_w remaining) (rect_h remaining) = 0 then 1
                 else min (rect_w remaining) (rect_h remaining)) = Inr b"
      using b unfolding a_def short_def m_def .
    show ?thesis
    proof (cases b)
      case False
      have eq: "squarify_loop nodes areas i row row_nodes remaining out
                  = squarify_loop nodes areas (i + 1) (row @ [a]) (row_nodes @ [n]) remaining out"
        using True b' False
        by (subst squarify_loop.simps) (simp add: Let_def a_def n_def split del: if_split)
      have r1: "row @ [a] = drop j (take (i + 1) areas)"
        using drop_take_snoc[of j i areas] jle True len row by (simp add: a_def)
      have r2: "row_nodes @ [n] = drop j (take (i + 1) nodes)"
        using drop_take_snoc[of j i nodes] jle True rn by (simp add: n_def)
      have IH: "\<exists>row' row_nodes' remaining' out' j'.
           squarify_loop nodes areas (i + 1) (row @ [a]) (row_nodes @ [n]) remaining out
             = Inr (row', row_nodes', remaining', out') \<and>
           j' \<le> length nodes \<and> row' = drop j' areas \<and> row_nodes' = drop j' nodes \<and>
           map snd out' = take j' nodes \<and> map (rect_area \<circ> fst) out' = take j' areas \<and>
           rect_area remaining' = sum_list (drop j' areas) \<and>
           (j' < length nodes \<longrightarrow>
              0 < rect_w remaining' \<and> 0 < rect_h remaining' \<and>
              rect_w remaining' \<le> 2 ^ 64 \<and> rect_h remaining' \<le> 2 ^ 64)"
      proof (rule "1.IH"(2)[OF True a_def n_def m_def short_def refl b _ len pos, of j])
        show "b = False" using False by simp
        show "j + length (row @ [a]) = i + 1" using ji by simp
        show "i + 1 \<le> length nodes" using True by simp
        show "row @ [a] = drop j (take (i + 1) areas)" by (rule r1)
        show "row_nodes @ [n] = drop j (take (i + 1) nodes)" by (rule r2)
        show "map snd out = take j nodes" by (rule o1)
        show "map (rect_area \<circ> fst) out = take j areas" by (rule o2)
        show "rect_area remaining = sum_list (drop j areas)" by (rule ra)
        show "j < length nodes \<longrightarrow>
           0 < rect_w remaining \<and> 0 < rect_h remaining \<and>
           rect_w remaining \<le> 2 ^ 64 \<and> rect_h remaining \<le> 2 ^ 64" by (rule rd)
      qed
      show ?thesis unfolding eq by (rule IH)
    next
      case bT: True
      have rne: "row \<noteq> []" using b bT by (auto simp: row_gets_worse_def)
      define horizontal where "horizontal = (rect_w remaining \<ge> rect_h remaining)"
      obtain laid remaining' where lr: "layout_row row remaining horizontal = (laid, remaining')"
        by (cases "layout_row row remaining horizontal") auto
      have eq: "squarify_loop nodes areas i row row_nodes remaining out
                  = squarify_loop nodes areas i [] [] remaining' (out @ zip laid row_nodes)"
        using True b' bT lr
        by (subst squarify_loop.simps) (simp add: Let_def horizontal_def split del: if_split)
      have split: "drop j areas = row @ drop i areas"
        using drop_split[of j i areas] jle True len row by simp
      have "drop i areas \<noteq> []" using True len by simp
      moreover have "\<forall>x \<in> set (drop i areas). 1 / 2 ^ 192 \<le> x"
        using pos by (auto dest: in_set_dropD)
      ultimately have "1 / 2 ^ 192 \<le> sum_list (drop i areas)"
        by (intro sum_list_lower) simp_all
      then have restpos: "0 < sum_list (drop i areas)"
        by (rule less_le_trans[rotated]) simp
      have lt: "sum_list row < rect_area remaining" using ra split restpos by simp
      then have le: "sum_list row \<le> rect_area remaining" by simp
      note lp = layout_row_props[OF dims rne rowpos le lr]
      have lenrow: "length row = length row_nodes" using row rn len by simp
      have o1': "map snd (out @ zip laid row_nodes) = take i nodes"
        using o1 lp(2) lenrow rn take_split[OF jle, of nodes] by simp
      have A: "map (rect_area \<circ> fst) (zip laid row_nodes) = map rect_area laid"
        using lp(2) lenrow by (simp add: map_fst_zip flip: map_map)
      have o2': "map (rect_area \<circ> fst) (out @ zip laid row_nodes) = take i areas"
        unfolding map_append o2 A lp(1)
        using take_split[OF jle, of areas] row by simp
      have ra': "rect_area remaining' = sum_list (drop i areas)"
        using lp(3) ra split by simp
      have rd': "i < length nodes \<longrightarrow>
           0 < rect_w remaining' \<and> 0 < rect_h remaining' \<and>
           rect_w remaining' \<le> 2 ^ 64 \<and> rect_h remaining' \<le> 2 ^ 64"
        using lp(6)[OF lt] lp(4,5) by simp
      have IH: "\<exists>row' row_nodes' remaining'' out' j'.
           squarify_loop nodes areas i [] [] remaining' (out @ zip laid row_nodes)
             = Inr (row', row_nodes', remaining'', out') \<and>
           j' \<le> length nodes \<and> row' = drop j' areas \<and> row_nodes' = drop j' nodes \<and>
           map snd out' = take j' nodes \<and> map (rect_area \<circ> fst) out' = take j' areas \<and>
           rect_area remaining'' = sum_list (drop j' areas) \<and>
           (j' < length nodes \<longrightarrow>
              0 < rect_w remaining'' \<and> 0 < rect_h remaining'' \<and>
              rect_w remaining'' \<le> 2 ^ 64 \<and> rect_h remaining'' \<le> 2 ^ 64)"
      proof (rule "1.IH"(1)[OF True a_def n_def m_def short_def refl b _ horizontal_def refl lr[symmetric] len pos, of i])
        show "b = True" using bT by simp
        show "i + length [] = i" by simp
        show "i \<le> length nodes" using True by simp
        show "[] = drop i (take i areas)" by simp
        show "[] = drop i (take i nodes)" by simp
        show "map snd (out @ zip laid row_nodes) = take i nodes" by (rule o1')
        show "map (rect_area \<circ> fst) (out @ zip laid row_nodes) = take i areas" by (rule o2')
        show "rect_area remaining' = sum_list (drop i areas)" by (rule ra')
        show "i < length nodes \<longrightarrow>
           0 < rect_w remaining' \<and> 0 < rect_h remaining' \<and>
           rect_w remaining' \<le> 2 ^ 64 \<and> rect_h remaining' \<le> 2 ^ 64" by (rule rd')
      qed
      show ?thesis unfolding eq by (rule IH)
    qed
  qed
qed

lemma sum_list_scaled:
  "(\<Sum>n\<leftarrow>xs. f n / c * k) = (\<Sum>n\<leftarrow>xs. f n) / c * (k::real)"
  by (induction xs) (simp_all add: add_divide_distrib distrib_right)

lemma sum_list_of_int:
  "(\<Sum>n\<leftarrow>xs. real_of_int (f n)) = real_of_int (sum_list (map f xs))"
  by (induction xs) simp_all

lemma normalized_area:
  assumes "1 / 2 ^ 64 \<le> w" "1 / 2 ^ 64 \<le> h" "0 < S" "S \<le> 2 ^ 64" "0 < sz"
  shows "float_div (float_mul (real_of_int sz) (float_mul w h)) (real_of_int S)
           = real_of_int sz / real_of_int S * (w * h)"
    and "1 / 2 ^ 192 \<le> real_of_int sz / real_of_int S * (w * h)"
proof -
  have wh: "float_mul w h = w * h"
    by (rule float_mul_exact[OF assms(1,2)]) simp_all
  have "(1 / 2 ^ 64) * (1 / 2 ^ 64) \<le> w * h"
    using assms(1,2) by (intro mult_mono) simp_all
  then have whl: "1 / 2 ^ 128 \<le> w * h" by simp
  have one: "1 \<le> real_of_int sz" using assms(5) by simp
  have m: "float_mul (real_of_int sz) (w * h) = real_of_int sz * (w * h)"
    by (rule float_mul_exact[OF one whl]) simp_all
  have "1 * (1 / 2 ^ 128) \<le> real_of_int sz * (w * h)"
    using one whl by (intro mult_mono) simp_all
  then have ml: "1 / 2 ^ 128 \<le> real_of_int sz * (w * h)" by simp
  have Spos: "0 < real_of_int S" using assms(3) by simp
  have "S \<le> 2 ^ 64" by (rule assms(4))
  then have "real_of_int S \<le> real_of_int (2 ^ 64)" by (rule of_int_le_iff[THEN iffD2])
  then have Sle: "real_of_int S \<le> 2 ^ 64" by simp
  have d: "float_div (real_of_int sz * (w * h)) (real_of_int S)
             = real_of_int sz * (w * h) / real_of_int S"
    by (rule float_div_exact[OF ml Spos Sle]) simp_all
  have "(1 / 2 ^ 128) / 2 ^ 64 \<le> real_of_int sz * (w * h) / real_of_int S"
    using ml Spos Sle by (intro frac_le) simp_all
  then have dl: "1 / 2 ^ 192 \<le> real_of_int sz * (w * h) / real_of_int S" by simp
  have e: "real_of_int sz * (w * h) / real_of_int S = real_of_int sz / real_of_int S * (w * h)"
    by simp
  show "float_div (float_mul (real_of_int sz) (float_mul w h)) (real_of_int S)
           = real_of_int sz / real_of_int S * (w * h)"
    unfolding wh m d e ..
  show "1 / 2 ^ 192 \<le> real_of_int sz / real_of_int S * (w * h)"
    using dl unfolding e .
qed

lemma squarify_tiles:
  assumes "1 / 2 ^ 64 \<le> w" "w \<le> 2 ^ 64" "1 / 2 ^ 64 \<le> h" "h \<le> 2 ^ 64"
    and "nodes = sort_key (\<lambda>n. - node_size n) (positive_children nodes0)"
    and "S = sum_list (map node_size (positive_children nodes0))"
    and "0 < S" "S \<le> 2 ^ 64"
  shows "\<exists>out. squarify nodes0 x y w h = Inr out \<and> map snd out = nodes \<and>
           map (rect_area \<circ> fst) out
             = map (\<lambda>n. real_of_int (node_size n) / real_of_int S * (w * h)) nodes"
proof -
  define areas where "areas = normalize_sizes nodes (float_mul w h)"
  have wpos: "0 < w" using assms(1) by (rule less_le_trans[rotated]) simp
  have hpos: "0 < h" using assms(3) by (rule less_le_trans[rotated]) simp
  have set_nodes: "set nodes = set (positive_children nodes0)"
    using assms(5) by simp
  then have npos: "\<forall>n \<in> set nodes. 0 < node_size n"
    by (simp add: positive_children_def)
  have "mset nodes = mset (positive_children nodes0)"
    using assms(5) by simp
  then have "mset (map node_size nodes) = mset (map node_size (positive_children nodes0))"
    by simp
  then have sumS: "sum_list (map node_size nodes) = S"
    using assms(6) by (metis sum_mset_sum_list)
  have meq: "map (\<lambda>n. max 0 (node_size n)) nodes = map node_size nodes"
    using npos by (auto simp: max_def)
  have total: "sum_list (map (\<lambda>n. max 0 (node_size n)) nodes) = S"
    unfolding meq by (rule sumS)
  note na = normalized_area[OF assms(1,3,7,8)]
  have "areas = map (\<lambda>n. float_div (float_mul (real_of_int (node_size n)) (float_mul w h))
                            (real_of_int S)) nodes"
    using total assms(7) npos by (auto simp: areas_def normalize_sizes_def Let_def max_def)
  also have "\<dots> = map (\<lambda>n. real_of_int (node_size n) / real_of_int S * (w * h)) nodes"
    using npos na(1) by simp
  finally have areas: "areas = map (\<lambda>n. real_of_int (node_size n) / real_of_int S * (w * h)) nodes" .
  have len: "length areas = length nodes" by (simp add: areas)
  have apos: "\<forall>a \<in> set areas. 1 / 2 ^ 192 \<le> a"
    using npos na(2) by (auto simp: areas)
  have "sum_list areas = (\<Sum>n\<leftarrow>nodes. real_of_int (node_size n)) / real_of_int S * (w * h)"
    unfolding areas by (rule sum_list_scaled)
  moreover have "(\<Sum>n\<leftarrow>nodes. real_of_int (node_size n)) = real_of_int S"
    using sumS by (simp add: sum_list_of_int)
  ultimately have asum: "sum_list areas = w * h"
    using assms(7) by simp
  obtain row row_nodes remaining out j where
    loop: "squarify_loop nodes areas 0 [] [] (Rect x y w h) [] = Inr (row, row_nodes, remaining, out)"
    and j: "j \<le> length nodes" and row: "row = drop j areas" and rn: "row_nodes = drop j nodes"
    and o1: "map snd out = take j nodes" and o2: "map (rect_area \<circ> fst) out = take j areas"
    and ra: "rect_area remaining = sum_list (drop j areas)"
    and rd: "j < length nodes \<longrightarrow>
               0 < rect_w remaining \<and> 0 < rect_h remaining \<and>
               rect_w remaining \<le> 2 ^ 64 \<and> rect_h remaining \<le> 2 ^ 64"
    using squarify_loop_tiles[OF len apos, of 0 "[]" 0 "[]" "[]" "Rect x y w h"] asum wpos hpos
      assms(2,4)
    by (auto simp: rect_area_def)
  have sq: "squarify nodes0 x y w h =
          (if row \<noteq> [] then
             Inr (out @ zip (fst (layout_row row remaining (rect_h remaining \<le> rect_w remaining))) row_nodes)
           else Inr out)"
    using loop assms(5)
    by (simp add: squarify_def Let_def areas_def positive_children_def split: prod.splits)
  show ?thesis
  proof (cases "row = []")
    case True
    then have "j = length nodes" using row j len by simp
    then show ?thesis using sq True o1 o2 len areas by simp
  next
    case False
    then have jl: "j < length nodes" using row len by simp
    obtain laid remaining' where
      lr: "layout_row row remaining (rect_h remaining \<le> rect_w remaining) = (laid, remaining')"
      by (cases "layout_row row remaining (rect_h remaining \<le> rect_w remaining)") auto
    have rowpos: "\<forall>a \<in> set row. 1 / 2 ^ 192 \<le> a"
      using apos row by (auto dest: in_set_dropD)
    have fit: "sum_list row \<le> rect_area remaining" using ra row by simp
    have dims: "0 < rect_w remaining" "rect_w remaining \<le> 2 ^ 64"
      "0 < rect_h remaining" "rect_h remaining \<le> 2 ^ 64"
      using rd jl by simp_all
    have lp: "map rect_area laid = row" "length laid = length row"
      using layout_row_props(1,2)[OF dims False rowpos fit lr] by simp_all
    have lenrow: "length row = length row_nodes" using row rn len by simp
    have A: "map (rect_area \<circ> fst) (zip laid row_nodes) = map rect_area laid"
      using lp(2) lenrow by (simp add: map_fst_zip flip: map_map)
    have 1: "map snd (out @ zip laid row_nodes) = nodes"
      using o1 rn lp(2) lenrow by simp
    have 2: "map (rect_area \<circ> fst) (out @ zip laid row_nodes) = areas"
      unfolding map_append o2 A lp(1) using row by simp
    show ?thesis using sq False lr 1 2 areas by simp
  qed
qed

text \<open>
  Away from underflow the layout conserves the area. For a rectangle whose width and
  height lie between 2 to the power -64 and 2 to the power 64, and children whose
  positive sizes sum to a positive \<open>S\<close> of at most 2 to the power 64, no product or quotient of the
  computation underflows: \<^verbatim>\<open>squarify\<close> returns one pair for each child of positive size and
  none for the others, the children by decreasing size; the area of each rectangle is
  the size of its child divided by \<open>S\<close>, times the area of the target rectangle, and the
  areas sum to the area of the target rectangle (exactly, rounding not being modelled).
\<close>

lemma squarify_area_conservation:
  assumes "1 / 2 ^ 64 \<le> w" "w \<le> 2 ^ 64" "1 / 2 ^ 64 \<le> h" "h \<le> 2 ^ 64"
    and "0 < sum_list (map node_size (positive_children nodes))"
    and "sum_list (map node_size (positive_children nodes)) \<le> 2 ^ 64"
  shows "\<exists>out. squarify nodes x y w h = Inr out \<and>
           map snd out = sort_key (\<lambda>n. - node_size n) (positive_children nodes) \<and>
           mset (map snd out) = mset (positive_children nodes) \<and>
           (\<forall>(r, n) \<in> set out.
              rect_area r
                = real_of_int (node_size n)
                    / real_of_int (sum_list (map node_size (positive_children nodes))) * (w * h)) \<and>
           sum_list (map (rect_area \<circ> fst) out) = w * h"
proof -
  define S where "S = sum_list (map node_size (positive_children nodes))"
  define sorted_nodes where "sorted_nodes = sort_key (\<lambda>n. - node_size n) (positive_children nodes)"
  have Spos: "0 < S" and Sle: "S \<le> 2 ^ 64" using assms(5,6) by (simp_all add: S_def)
  obtain out where sq: "squarify nodes x y w h = Inr out"
    and n: "map snd out = sorted_nodes"
    and a: "map (rect_area \<circ> fst) out
              = map (\<lambda>n. real_of_int (node_size n) / real_of_int S * (w * h)) sorted_nodes"
    using squarify_tiles[OF assms(1-4) sorted_nodes_def S_def Spos Sle] by blast
  have m: "mset (map snd out) = mset (positive_children nodes)"
    unfolding n sorted_nodes_def by simp
  have "map (rect_area \<circ> fst) out
          = map ((\<lambda>n. real_of_int (node_size n) / real_of_int S * (w * h)) \<circ> snd) out"
    unfolding a n[symmetric] by simp
  then have each: "\<forall>(r, n) \<in> set out. rect_area r = real_of_int (node_size n) / real_of_int S * (w * h)"
    by auto
  have "mset (map node_size sorted_nodes) = mset (map node_size (positive_children nodes))"
    unfolding sorted_nodes_def by simp
  then have "sum_list (map node_size sorted_nodes) = S"
    unfolding S_def by (metis sum_mset_sum_list)
  then have sumeq: "(\<Sum>n\<leftarrow>sorted_nodes. real_of_int (node_size n)) = real_of_int S"
    by (simp add: sum_list_of_int)
  have "sum_list (map (rect_area \<circ> fst) out)
          = (\<Sum>n\<leftarrow>sorted_nodes. real_of_int (node_size n)) / real_of_int S * (w * h)"
    unfolding a by (rule sum_list_scaled)
  then have total: "sum_list (map (rect_area \<circ> fst) out) = w * h"
    unfolding sumeq using Spos by simp
  show ?thesis
    using sq n m each total unfolding S_def sorted_nodes_def by blast
qed


lemma squarify_area_conservation_example:
  "\<exists>out. squarify [leaf ''a'' 3, leaf ''b'' 0, leaf ''c'' 1] 0 0 4 1 = Inr out \<and>
      map snd out
        = sort_key (\<lambda>n. - node_size n) (positive_children [leaf ''a'' 3, leaf ''b'' 0, leaf ''c'' 1]) \<and>
      mset (map snd out) = mset (positive_children [leaf ''a'' 3, leaf ''b'' 0, leaf ''c'' 1]) \<and>
      (\<forall>(r, n) \<in> set out.
         rect_area r
           = real_of_int (node_size n)
               / real_of_int (sum_list (map node_size
                   (positive_children [leaf ''a'' 3, leaf ''b'' 0, leaf ''c'' 1]))) * (4 * 1)) \<and>
      sum_list (map (rect_area \<circ> fst) out) = 4 * 1"
proof -
  have S: "sum_list (map node_size (positive_children [leaf ''a'' 3, leaf ''b'' 0, leaf ''c'' 1])) = 4"
    by (simp add: positive_children_def leaf_def)
  have 1: "0 < sum_list (map node_size (positive_children [leaf ''a'' 3, leaf ''b'' 0, leaf ''c'' 1]))"
    and 2: "sum_list (map node_size (positive_children [leaf ''a'' 3, leaf ''b'' 0, leaf ''c'' 1])) \<le> 2 ^ 64"
    unfolding S by simp_all
  have 3: "(1::real) / 2 ^ 64 \<le> 4" "(4::real) \<le> 2 ^ 64" "(1::real) / 2 ^ 64 \<le> 1" "(1::real) \<le> 2 ^ 64"
    by simp_all
  show ?thesis
    using squarify_area_conservation [OF 3 1 2, of 0 0] by blast
qed

text \<open>
  C6 (for every rectangle of positive width and height and children of positive total
  size, each positive child gets a rectangle whose area is its share of the area of
  the target) fails on the code. In the square of side 2 to the power -300, two
  children of size 1 get the areas 2 to the power -601 each; for the row of both,
  \<^verbatim>\<open>_worst\<close> computes \<^verbatim>\<open>s * s\<close>, 2 to the power -1200, which is \<^verbatim>\<open>0.0\<close> as a float, and
  divides by it: \<^verbatim>\<open>squarify\<close> raises \<^verbatim>\<open>ZeroDivisionError\<close> and returns no rectangle.
\<close>

theorem area_conservation_failing_input:
  "squarify [leaf ''a'' 1, leaf ''b'' 1] 0 0 (1 / 2 ^ 300) (1 / 2 ^ 300) = Inl ZeroDivisionError"
  by (simp add: treemap_eval)

subsection \<open>The orientation of a row\<close>

text \<open>
  C7 (a finished row is laid out along the shorter side of the remaining rectangle)
  fails on the code. In the rectangle of width 4 and height 1, with children of sizes 3
  and 1, the first row holds the child of size 3; the worst ratio 3 that decided it was
  computed against the shorter side 1, that is for a rectangle 3 wide and 1 high, which
  is what the specification's layout gives. The code lays the row out across the width
  4, the longer side, and the child gets a rectangle 4 wide and 3/4 high.
\<close>

theorem row_orientation_failing_input:
  "squarify [leaf ''a'' 3, leaf ''b'' 1] 0 0 4 1
     = Inr [(Rect 0 0 4 (3 / 4), leaf ''a'' 3), (Rect 0 (3 / 4) 4 (1 / 4), leaf ''b'' 1)] \<and>
   spec_squarify [leaf ''a'' 3, leaf ''b'' 1] 0 0 4 1
     = Inr [(Rect 0 0 3 1, leaf ''a'' 3), (Rect 3 0 1 1, leaf ''b'' 1)]"
  by (simp add: treemap_eval spec_squarify_def spec_squarify_loop.simps spec_horizontal_def)

subsection \<open>The extension histogram\<close>

lemma sum_update:
  fixes f :: "'v \<Rightarrow> int"
  shows "sum_list (map (f \<circ> snd) (AList.update k v xs))
           = sum_list (map (f \<circ> snd) xs) - (case map_of xs k of None \<Rightarrow> 0 | Some w \<Rightarrow> f w) + f v"
  by (induction xs) auto

lemma ext_add_sums:
  "sum_list (map (fst \<circ> snd) (ext_add stats k sz)) = sum_list (map (fst \<circ> snd) stats) + sz"
  "sum_list (map (snd \<circ> snd) (ext_add stats k sz)) = sum_list (map (snd \<circ> snd) stats) + 1"
  "distinct (map fst stats) \<Longrightarrow> distinct (map fst (ext_add stats k sz))"
  "map_of (ext_add stats k sz)
     = (map_of stats)(k \<mapsto> (case map_of stats k of None \<Rightarrow> (sz, 1) | Some (b, c) \<Rightarrow> (b + sz, c + 1)))"
  by (auto simp: ext_add_def sum_update distinct_update update_conv' split: option.splits prod.splits)

lemma ext_totals_scan_file:
  "ext_totals s \<Longrightarrow> scan_file os opts nm pth sz l s = Inr (l', s') \<Longrightarrow> ext_totals s'"
  by (simp add: ext_totals_def scan_file_state ext_add_sums)

lemma ext_totals_scan_dir:
  "ext_totals s \<Longrightarrow> scan_dir os opts p listing s = Inr (n, s') \<Longrightarrow> ext_totals s'"
  using scan_invariant(1)[of ext_totals opts os s p listing]
  by (auto simp: ext_totals_def cancelled_state entered_state scan_file_state ext_add_sums)

text \<open>
  C8: the byte totals of \<^verbatim>\<open>ext_stats\<close> sum to \<^verbatim>\<open>bytes_scanned\<close> and its counts to
  \<^verbatim>\<open>files\<close>, over keys that are pairwise different (for every scan, cancelled or not);
  every file the loop handles adds one to \<^verbatim>\<open>files\<close>, its size to \<^verbatim>\<open>bytes_scanned\<close>, and
  its size and a count of one to the entry of one key, leaving the other keys as they
  are; that key is the lower-cased extension of the file's name (what \<^verbatim>\<open>str.lower\<close>
  makes of the second component of \<^verbatim>\<open>os.path.splitext\<close>), or the sentinel when this is
  the empty string, as it is for a name without extension.
\<close>

theorem ext_stats_totals:
  "(scan_paths os paths opts = Inr r \<longrightarrow>
      distinct (map fst (ext_stats r)) \<and>
      sum_list (map (fst \<circ> snd) (ext_stats r)) = bytes_scanned r \<and>
      sum_list (map (snd \<circ> snd) (ext_stats r)) = files r) \<and>
   (scan_file os opts nm pth sz l s = Inr (l', s') \<longrightarrow>
      files s' = files s + 1 \<and> bytes_scanned s' = bytes_scanned s + sz \<and>
      (let key = (if lower os (snd (splitext os nm)) = [] then no_ext_key
                  else lower os (snd (splitext os nm)))
       in map_of (ext_stats s')
            = (map_of (ext_stats s))(key \<mapsto>
                 (case map_of (ext_stats s) key of
                    None \<Rightarrow> (sz, 1) | Some (b, c) \<Rightarrow> (b + sz, c + 1))) \<and>
          (snd (splitext os nm) = [] \<and> lower os [] = [] \<longrightarrow> key = no_ext_key)))"
proof (intro conjI impI)
  assume sp: "scan_paths os paths opts = Inr r"
  let ?s0 = "\<lparr>files = 0, dirs = 0, bytes_scanned = 0, ext_stats = [], global_top = [], polls = 0\<rparr>"
  obtain name root_node s where
    sr: "scan_roots os opts (normalize_paths os paths)
           (Node name (join '';'' (normalize_paths os paths)) True 0 []) ?s0 = Inr (root_node, s)"
    and r: "r = \<lparr>files = files s, dirs = dirs s, bytes_scanned = bytes_scanned s,
                 ext_stats = ext_stats s, root = root_node,
                 top_files = sort_key (\<lambda>x. - fst x) (global_top s),
                 scanned_paths = normalize_paths os paths\<rparr>"
    using sp by (auto simp: scan_paths_def Let_def split: sum.splits)
  have "ext_totals ?s0" by (simp add: ext_totals_def)
  then have "ext_totals s"
    using sr
  proof (rule scan_roots_invariant[rotated 2])
    show "ext_totals (snd (cancelled opts s))" if "ext_totals s" for s :: scan_state
      using that by (simp add: ext_totals_def cancelled_state)
    show "ext_totals s'" if "ext_totals s" "scan_dir os opts p listing s = Inr (n, s')"
      for s p listing n s'
      using that by (rule ext_totals_scan_dir)
  qed
  then show "distinct (map fst (ext_stats r))"
    "sum_list (map (fst \<circ> snd) (ext_stats r)) = bytes_scanned r"
    "sum_list (map (snd \<circ> snd) (ext_stats r)) = files r"
    by (simp_all add: r ext_totals_def)
next
  assume sf: "scan_file os opts nm pth sz l s = Inr (l', s')"
  show "files s' = files s + 1" "bytes_scanned s' = bytes_scanned s + sz"
    using sf by (simp_all add: scan_file_state)
  have key: "ext_key os nm
               = (if lower os (snd (splitext os nm)) = [] then no_ext_key
                  else lower os (snd (splitext os nm)))"
    by (simp add: ext_key_def Let_def)
  have "map_of (ext_stats s')
        = (map_of (ext_stats s))(ext_key os nm \<mapsto>
             (case map_of (ext_stats s) (ext_key os nm) of
                None \<Rightarrow> (sz, 1) | Some (b, c) \<Rightarrow> (b + sz, c + 1)))"
    using sf by (simp add: scan_file_state ext_add_sums)
  then show "let key = (if lower os (snd (splitext os nm)) = [] then no_ext_key
                        else lower os (snd (splitext os nm)))
             in map_of (ext_stats s')
                  = (map_of (ext_stats s))(key \<mapsto>
                       (case map_of (ext_stats s) key of
                          None \<Rightarrow> (sz, 1) | Some (b, c) \<Rightarrow> (b + sz, c + 1))) \<and>
                (snd (splitext os nm) = [] \<and> lower os [] = [] \<longrightarrow> key = no_ext_key)"
    unfolding key Let_def by simp
qed

theorem ext_stats_totals_witness:
  "scan_paths (posix sample_tree) [''/d''] default_opts = Inr sample_result \<and>
   distinct (map fst (ext_stats sample_result)) \<and>
   sum_list (map (fst \<circ> snd) (ext_stats sample_result)) = bytes_scanned sample_result \<and>
   sum_list (map (snd \<circ> snd) (ext_stats sample_result)) = files sample_result \<and>
   scan_file (posix sample_tree) default_opts ''a.TXT'' ''/d/a.TXT'' 5
       (fresh_locals (posix sample_tree) ''/d'') sample_state
     = Inr (sample_locals_after, sample_state_after) \<and>
   files sample_state_after = files sample_state + 1 \<and>
   bytes_scanned sample_state_after = bytes_scanned sample_state + 5 \<and>
   map_of (ext_stats sample_state_after)
     = (map_of (ext_stats sample_state))(''.txt'' \<mapsto>
          (case map_of (ext_stats sample_state) ''.txt'' of
             None \<Rightarrow> (5, 1) | Some (b, c) \<Rightarrow> (b + 5, c + 1))) \<and>
   snd (splitext (posix sample_tree) ''c'') = [] \<and> lower (posix sample_tree) [] = [] \<and>
   (\<exists>l' s'. scan_file (posix sample_tree) default_opts ''c'' ''/d/c'' 2
                (fresh_locals (posix sample_tree) ''/d'') sample_state
              = Inr (l', s') \<and>
            map_of (ext_stats s') = (map_of (ext_stats sample_state))(no_ext_key \<mapsto> (4, 2)))"
proof -
  have 1: "scan_paths (posix sample_tree) [''/d''] default_opts = Inr sample_result"
    by code_simp
  have 2: "scan_file (posix sample_tree) default_opts ''a.TXT'' ''/d/a.TXT'' 5
       (fresh_locals (posix sample_tree) ''/d'') sample_state
     = Inr (sample_locals_after, sample_state_after)"
    by code_simp
  have 3: "lower (posix sample_tree) (snd (splitext (posix sample_tree) ''a.TXT'')) = ''.txt''"
    by code_simp
  note t = ext_stats_totals [of "posix sample_tree" "[''/d'']" default_opts sample_result
      "''a.TXT''" "''/d/a.TXT''" 5 "fresh_locals (posix sample_tree) ''/d''" sample_state
      sample_locals_after sample_state_after]
  have 4: "map_of (ext_stats sample_state_after)
     = (map_of (ext_stats sample_state))(''.txt'' \<mapsto>
          (case map_of (ext_stats sample_state) ''.txt'' of
             None \<Rightarrow> (5, 1) | Some (b, c) \<Rightarrow> (b + 5, c + 1)))"
    using t 2 unfolding 3 Let_def by simp
  have 5: "snd (splitext (posix sample_tree) ''c'') = []" "lower (posix sample_tree) [] = []"
    by code_simp+
  obtain l' s' where 6:
    "scan_file (posix sample_tree) default_opts ''c'' ''/d/c'' 2
       (fresh_locals (posix sample_tree) ''/d'') sample_state = Inr (l', s')"
    using scan_file_total by blast
  have 7: "map_of (ext_stats sample_state) no_ext_key = Some (2, 1)"
    by code_simp
  have 8: "map_of (ext_stats s') = (map_of (ext_stats sample_state))(no_ext_key \<mapsto> (4, 2))"
    using ext_stats_totals [of "posix sample_tree" "[''/d'']" default_opts sample_result
      "''c''" "''/d/c''" 2 "fresh_locals (posix sample_tree) ''/d''" sample_state l' s'] 5 6
    unfolding Let_def by (simp add: 7)
  show ?thesis
    using t 1 2 4 5 6 8 by blast
qed

subsection \<open>The largest files of the scan\<close>

lemma never_cancels_cancelled:
  "never_cancels opts \<Longrightarrow> \<not> fst (cancelled opts s)"
  by (auto simp: never_cancels_def cancelled_def split: option.splits)

lemma push_all_append:
  "push_all h (V @ W) K = (case push_all h V K of Inl e \<Rightarrow> Inl e | Inr h' \<Rightarrow> push_all h' W K)"
  by (induction V arbitrary: h) (auto split: sum.splits)

lemma push_all_append_Inr:
  "push_all h V K = Inr h1 \<Longrightarrow> push_all h1 W K = Inr h2 \<Longrightarrow> push_all h (V @ W) K = Inr h2"
  by (simp add: push_all_append)

lemma scan_visits:
  assumes nc: "never_cancels opts"
  shows "\<forall>n s'. scan_dir os opts p listing s = Inr (n, s') \<longrightarrow>
           push_all (global_top s) (visited_files opts listing) (global_top_files opts) = Inr (global_top s') \<and>
           files s' = files s + int (length (visited_files opts listing))"
    and "\<forall>l' b s'. scan_loop os opts p entries l s = Inr (l', b, s') \<longrightarrow>
           push_all (global_top s) (visited_in opts entries) (global_top_files opts) = Inr (global_top s') \<and>
           files s' = files s + int (length (visited_in opts entries))"
proof (induction p listing s and p entries l s rule: scan_induct[of opts _ os])
  case (dir p listing s)
  note ncs = never_cancels_cancelled[OF nc]
  show ?case
  proof (intro impI allI)
    fix n s' assume sd: "scan_dir os opts p listing s = Inr (n, s')"
    show "push_all (global_top s) (visited_files opts listing) (global_top_files opts) = Inr (global_top s') \<and>
          files s' = files s + int (length (visited_files opts listing))"
    proof (cases listing)
      case ScandirError
      then have "s' = snd (cancelled opts s)" using sd by (simp add: scan_dir_stop)
      then show ?thesis using ScandirError by (simp add: cancelled_state)
    next
      case (Scandir entries fails)
      obtain l br s2 where lp: "scan_loop os opts p entries (fresh_locals os p) (snd (cancelled opts s)) = Inr (l, br, s2)"
        using scan_total(2) by blast
      then have "s2 = s'" using sd Scandir ncs by (simp add: scan_dir_list)
      then have lp': "scan_loop os opts p entries (fresh_locals os p) (snd (cancelled opts s)) = Inr (l, br, s')"
        using lp by simp
      show ?thesis using dir[OF Scandir ncs, rule_format, OF lp'] Scandir by (simp add: cancelled_state)
    qed
  qed
next
  case (nil p l s)
  show ?case by simp
next
  case (cons p nm pth symlink st rest l s)
  note ncs = never_cancels_cancelled[OF nc, of s]
  show ?case
  proof (intro impI allI)
    fix l' b s'
    assume sl: "scan_loop os opts p (DirEntry nm pth symlink st # rest) l s = Inr (l', b, s')"
    show "push_all (global_top s) (visited_in opts (DirEntry nm pth symlink st # rest)) (global_top_files opts) = Inr (global_top s') \<and>
          files s' = files s + int (length (visited_in opts (DirEntry nm pth symlink st # rest)))"
    proof (cases "skips opts symlink \<or> st = StatError")
      case True
      then have "scan_loop os opts p rest l (snd (cancelled opts s)) = Inr (l', b, s')"
        using sl by (simp add: scan_loop_skip[OF ncs True])
      then show ?thesis using cons(1)[OF ncs True] True by (auto simp: cancelled_state)
    next
      case False
      then have ns: "\<not> skips opts symlink" by simp
      show ?thesis
      proof (cases st)
        case StatError
        then show ?thesis using False by simp
      next
        case (StatFile sz)
        obtain l2 s2 where sf: "scan_file os opts nm pth sz l (snd (cancelled opts s)) = Inr (l2, s2)"
          using scan_file_total by blast
        have lp: "scan_loop os opts p rest l2 s2 = Inr (l', b, s')"
          using sl by (simp add: scan_loop_file[OF ncs ns StatFile sf])
        have 1: "push_top (global_top s) (sz, pth) (global_top_files opts) = Inr (global_top s2)"
          and 2: "files s2 = files s + 1"
          using scan_file_state[OF sf] by (simp_all add: cancelled_state)
        show ?thesis using cons(4)[OF ncs ns StatFile sf] lp 1 2 ns StatFile by simp
      next
        case (StatDir sub)
        obtain child s2 where sd: "scan_dir os opts pth sub (entered (snd (cancelled opts s))) = Inr (child, s2)"
          using scan_total(1) by blast
        have lp: "scan_loop os opts p rest (attach l child) s2 = Inr (l', b, s')"
          using sl by (simp add: scan_loop_dir[OF ncs ns StatDir sd])
        have 1: "push_all (global_top s) (visited_files opts sub) (global_top_files opts) = Inr (global_top s2)"
          and 2: "files s2 = files s + int (length (visited_files opts sub))"
          using cons(2)[OF ncs ns StatDir] sd by (simp_all add: cancelled_state entered_state)
        have 3: "push_all (global_top s2) (visited_in opts rest) (global_top_files opts) = Inr (global_top s')"
          and 4: "files s' = files s2 + int (length (visited_in opts rest))"
          using cons(3)[OF ncs ns StatDir sd] lp by simp_all
        show ?thesis using push_all_append_Inr[OF 1 3] 2 4 ns StatDir by simp
      qed
    qed
  qed
qed


lemma fst_le: "(a :: int \<times> 'b::linorder) \<le> b \<Longrightarrow> fst a \<le> fst b"
  by (auto simp: less_eq_prod_def)

lemma heap_min_fst:
  fixes h :: "(int \<times> 'b::linorder) list"
  shows "heap_inv h \<Longrightarrow> x \<in> set h \<Longrightarrow> fst (h ! 0) \<le> fst x"
  by (rule fst_le) (rule heap_inv_hd_le)

lemma push_top_result:
  assumes "heap_inv h"
  shows "\<exists>h'. push_top h v K = Inr h' \<and> heap_inv h' \<and>
           (if K \<le> 0 then h' = h
            else if int (length h) < K then mset h' = add_mset v (mset h) \<and> length h' = Suc (length h)
            else if fst v > fst (h ! 0)
                 then h \<noteq> [] \<and> mset h' = add_mset v (mset h - {#h ! 0#}) \<and> length h' = length h
                 else h' = h)"
proof (cases "K \<le> 0 \<or> int (length h) < K")
  case True
  then show ?thesis using assms by (auto simp: push_top_def heap_inv_heappush)
next
  case False
  then have ne: "h \<noteq> []" by auto
  then obtain x xs where h: "h = x # xs" by (cases h) auto
  obtain h' where hr: "heapreplace h v = Inr (h ! 0, h')" "heap_inv h'"
    "mset h' = add_mset v (mset h - {#h ! 0#})" "length h' = length h"
    using heapreplace_props[OF assms ne, of v] by blast
  show ?thesis
  proof (cases "fst v > fst (h ! 0)")
    case True
    then have "push_top h v K = Inr h'"
      using False hr(1) h by (simp add: push_top_def)
    then show ?thesis using False True hr ne by simp
  next
    case F2: False
    then have "push_top h v K = Inr h"
      using False h by (simp add: push_top_def)
    then show ?thesis using False F2 assms by simp
  qed
qed

lemma length_siftup_loop: "length (fst (siftup_loop h e p c)) = length h"
proof (induction h e p c rule: siftup_loop.induct)
  case (1 heap endpos pos childpos)
  then show ?case by (subst siftup_loop.simps) (simp add: Let_def)
qed

lemma length_siftup [simp]: "length (siftup h p) = length h"
  using length_siftup_loop[of h "length h" p "2 * p + 1"]
  by (auto simp add: siftup_def siftdown_def Let_def split: prod.splits)

lemma push_top_length:
  "length h \<le> nat K \<Longrightarrow> push_top h v K = Inr h' \<Longrightarrow> length h' \<le> nat K"
  by (cases h) (auto simp: push_top_def heapreplace_def split: if_splits)

lemma mset_sub_replace: "A \<subseteq># B \<Longrightarrow> add_mset v (A - {#x#}) \<subseteq># add_mset v B"
  by (metis mset_subset_eq_add_mset_cancel subset_mset.order_trans diff_subset_eq_self)

lemma mset_sub_add: "A \<subseteq># B \<Longrightarrow> A \<subseteq># add_mset v B"
  using subset_mset.trans by fastforce

lemma mset_rest_replace: "x \<in># A \<Longrightarrow> A \<subseteq># B \<Longrightarrow> B - (A - {#x#}) = add_mset x (B - A)"
  by (metis add_mset_add_single single_subset_iff
    subset_mset.add_diff_assoc2 subset_mset.diff_diff_right)

lemma mset_rest_add: "A \<subseteq># B \<Longrightarrow> add_mset v B - A = add_mset v (B - A)"
  by (metis add_mset_add_single subset_mset.add_diff_assoc2)

lemma mset_sub_same_size: "A \<subseteq># B \<Longrightarrow> size A = size B \<Longrightarrow> A = B"
  by (metis mset_subset_size order_less_irrefl subset_mset.le_less)

lemma top_of_push_top:
  assumes t: "top_of K h V" and p: "push_top h v K = Inr h'"
  shows "top_of K h' (V @ [v])"
proof -
  have hi: "heap_inv h" and sub: "mset h \<subseteq># mset V"
    and len: "length h = min (nat K) (length V)"
    and dom: "\<And>a b. a \<in># mset h \<Longrightarrow> b \<in># mset V - mset h \<Longrightarrow> fst b \<le> fst a"
    using t by (auto simp: top_of_def)
  obtain h2 where r: "push_top h v K = Inr h2" "heap_inv h2"
    and c: "(if K \<le> 0 then h2 = h
            else if int (length h) < K then mset h2 = add_mset v (mset h) \<and> length h2 = Suc (length h)
            else if fst v > fst (h ! 0)
                 then h \<noteq> [] \<and> mset h2 = add_mset v (mset h - {#h ! 0#}) \<and> length h2 = length h
                 else h2 = h)"
    using push_top_result[OF hi, of v K] by blast
  have h2: "h2 = h'" using r(1) p by simp
  consider (off) "K \<le> 0" | (grow) "0 < K" "int (length h) < K"
    | (replace) "0 < K" "\<not> int (length h) < K" "fst v > fst (h ! 0)"
    | (keep) "0 < K" "\<not> int (length h) < K" "\<not> fst v > fst (h ! 0)"
    by linarith
  then show ?thesis
  proof cases
    case off
    then have "h' = h" "h = []" using c h2 len by auto
    then show ?thesis using off by (simp add: top_of_def)
  next
    case grow
    then have m: "mset h' = add_mset v (mset h)" and l: "length h' = Suc (length h)"
      using c h2 by auto
    have "length h = length V" using grow len by linarith
    then have "size (mset h) = size (mset V)" by simp
    then have "mset h = mset V" using sub by (intro mset_sub_same_size)
    then show ?thesis using m l r(2) h2 grow \<open>length h = length V\<close>
      by (auto simp: top_of_def)
  next
    case replace
    then have ne: "h \<noteq> []" and m: "mset h' = add_mset v (mset h - {#h ! 0#})"
      and l: "length h' = length h"
      using c h2 by auto
    have h0: "h ! 0 \<in># mset h" using ne by (metis length_greater_0_conv nth_mem_mset)
    have lenK: "length h = nat K" "nat K \<le> length V" using replace len by linarith+
    have rest: "mset (V @ [v]) - mset h' = add_mset (h ! 0) (mset V - mset h)"
    proof -
      have "mset (V @ [v]) - mset h' = mset V - (mset h - {#h ! 0#})"
        by (simp add: m)
      also have "\<dots> = add_mset (h ! 0) (mset V - mset h)"
        using h0 sub by (rule mset_rest_replace)
      finally show ?thesis .
    qed
    have sub': "mset h' \<subseteq># mset (V @ [v])"
      unfolding m using mset_sub_replace[OF sub] by simp
    have dom': "fst b \<le> fst a" if a: "a \<in># mset h'" and b: "b \<in># mset (V @ [v]) - mset h'" for a b
    proof -
      have b': "b = h ! 0 \<or> b \<in># mset V - mset h" using b unfolding rest by auto
      have bm: "fst b \<le> fst (h ! 0)"
      proof (cases "b = h ! 0")
        case True
        then show ?thesis by simp
      next
        case False
        then have "b \<in># mset V - mset h" using b' by simp
        then show ?thesis by (rule dom[OF h0])
      qed
      have a': "a = v \<or> a \<in># mset h" using a unfolding m by (auto dest: in_diffD)
      then show ?thesis
      proof
        assume "a = v"
        then show ?thesis using bm replace(3) by simp
      next
        assume "a \<in># mset h"
        then have "fst (h ! 0) \<le> fst a" using heap_min_fst[OF hi] by simp
        then show ?thesis using bm by simp
      qed
    qed
    show ?thesis
      using r(2) h2 sub' l lenK dom' unfolding top_of_def by auto
  next
    case keep
    then have hh: "h' = h" using c h2 by auto
    have ne: "h \<noteq> []" using keep by auto
    have lenK: "length h = nat K" "nat K \<le> length V" using keep len by linarith+
    have rest: "mset (V @ [v]) - mset h = add_mset v (mset V - mset h)"
      using mset_rest_add[OF sub] by simp
    have dom': "fst b \<le> fst a" if a: "a \<in># mset h" and b: "b \<in># mset (V @ [v]) - mset h" for a b
    proof -
      have ma: "fst (h ! 0) \<le> fst a" using heap_min_fst[OF hi] a by simp
      have bb: "b = v \<or> b \<in># mset V - mset h" using b unfolding rest by auto
      show ?thesis
      proof (cases "b = v")
        case True
        then show ?thesis using ma keep(3) by simp
      next
        case False
        then have "b \<in># mset V - mset h" using bb by simp
        then show ?thesis by (rule dom[OF a])
      qed
    qed
    have "mset h \<subseteq># mset (V @ [v])" using mset_sub_add[OF sub] by simp
    then show ?thesis using hi hh lenK dom' unfolding top_of_def by auto
  qed
qed

lemma top_of_push_all:
  "top_of K h V \<Longrightarrow> push_all h W K = Inr h' \<Longrightarrow> top_of K h' (V @ W)"
proof (induction W arbitrary: h V)
  case Nil
  then show ?case by simp
next
  case (Cons w W)
  obtain h1 where 1: "push_top h w K = Inr h1" using push_top_total by blast
  then have 2: "push_all h1 W K = Inr h'" using Cons.prems(2) by simp
  have "top_of K h1 (V @ [w])" using top_of_push_top[OF Cons.prems(1) 1] .
  then have "top_of K h' ((V @ [w]) @ W)" using 2 by (rule Cons.IH)
  then show ?case by simp
qed


lemma scan_roots_visits:
  assumes nc: "never_cancels opts"
  shows "scan_roots os opts ps r s = Inr (r', s') \<Longrightarrow>
           push_all (global_top s) (concat (map (\<lambda>p. visited_files opts (scandir os p)) ps))
             (global_top_files opts) = Inr (global_top s') \<and>
           files s' = files s + int (length (concat (map (\<lambda>p. visited_files opts (scandir os p)) ps)))"
proof (induction ps arbitrary: r s)
  case Nil
  then show ?case by simp
next
  case (Cons p ps)
  note ncs = never_cancels_cancelled[OF nc, of s]
  obtain c0 s1 where cs: "cancelled opts s = (c0, s1)" by (cases "cancelled opts s") auto
  then have c0: "\<not> c0" and s1: "s1 = snd (cancelled opts s)" using ncs by simp_all
  obtain child s2 where sd: "scan_dir os opts p (scandir os p) s1 = Inr (child, s2)"
    using scan_total(1) by blast
  then have sr: "scan_roots os opts ps (add_size (append_child r child) (node_size child)) s2 = Inr (r', s')"
    using Cons.prems cs c0 by simp
  have 1: "push_all (global_top s) (visited_files opts (scandir os p)) (global_top_files opts) = Inr (global_top s2)"
    and 2: "files s2 = files s + int (length (visited_files opts (scandir os p)))"
    using scan_visits(1)[OF nc, of os p "scandir os p" s1, rule_format, OF sd]
    by (simp_all add: s1 cancelled_state)
  have 3: "push_all (global_top s2) (concat (map (\<lambda>p. visited_files opts (scandir os p)) ps))
             (global_top_files opts) = Inr (global_top s')"
    and 4: "files s' = files s2 + int (length (concat (map (\<lambda>p. visited_files opts (scandir os p)) ps)))"
    using Cons.IH[OF sr] by simp_all
  show ?case using push_all_append_Inr[OF 1 3] 2 4 by simp
qed

lemma sorted_desc_sort_key:
  "sorted_wrt (\<lambda>a b. fst a \<ge> fst b) (sort_key (\<lambda>x. - fst x) (xs :: (int \<times> 'b) list))"
proof -
  have "sorted (map (\<lambda>x. - fst x) (sort_key (\<lambda>x. - fst x) xs))"
    by (rule sorted_sort_key)
  then show ?thesis by (simp add: sorted_map)
qed

text \<open>
  C9: after a complete scan with a global limit \<open>K \<ge> 0\<close>, \<^verbatim>\<open>files\<close> is the number of files
  visited and \<^verbatim>\<open>top_files\<close> holds \<open>min K files\<close> of them, sorted by decreasing size, such
  that no visited file left out is larger than a file in \<^verbatim>\<open>top_files\<close>: these are the
  largest files. Ties are broken by the order of the heap array, a function of the
  sequence of files visited. No call of \<^verbatim>\<open>_push_top\<close> makes a heap of at most \<open>K\<close> items
  larger than \<open>K\<close>, and the global heap starts empty and is changed by \<^verbatim>\<open>_push_top\<close> only.
\<close>

theorem top_files_correct:
  assumes "never_cancels opts" and "0 \<le> global_top_files opts"
    and "scan_paths os paths opts = Inr r"
  shows "files r = int (length (all_visited os opts paths)) \<and>
         int (length (top_files r)) = min (global_top_files opts) (files r) \<and>
         sorted_wrt (\<lambda>a b. fst a \<ge> fst b) (top_files r) \<and>
         mset (top_files r) \<subseteq># mset (all_visited os opts paths) \<and>
         (\<forall>a \<in># mset (top_files r).
            \<forall>b \<in># mset (all_visited os opts paths) - mset (top_files r). fst b \<le> fst a) \<and>
         (\<forall>heap item heap'.
            length heap \<le> nat (global_top_files opts) \<longrightarrow>
            push_top heap item (global_top_files opts) = Inr heap' \<longrightarrow>
            length heap' \<le> nat (global_top_files opts))"
proof -
  let ?s0 = "\<lparr>files = 0, dirs = 0, bytes_scanned = 0, ext_stats = [], global_top = [], polls = 0\<rparr>"
  let ?K = "global_top_files opts"
  let ?V = "all_visited os opts paths"
  obtain name root_node s where
    sr: "scan_roots os opts (normalize_paths os paths)
           (Node name (join '';'' (normalize_paths os paths)) True 0 []) ?s0 = Inr (root_node, s)"
    and r: "r = \<lparr>files = files s, dirs = dirs s, bytes_scanned = bytes_scanned s,
                 ext_stats = ext_stats s, root = root_node,
                 top_files = sort_key (\<lambda>x. - fst x) (global_top s),
                 scanned_paths = normalize_paths os paths\<rparr>"
    using assms(3) by (auto simp: scan_paths_def Let_def split: sum.splits)
  have pa: "push_all [] ?V ?K = Inr (global_top s)" and fl: "files s = int (length ?V)"
    using scan_roots_visits[OF assms(1) sr] by (simp_all add: all_visited_def)
  have "top_of ?K [] []" by (simp add: top_of_def)
  then have "top_of ?K (global_top s) ([] @ ?V)" using pa by (rule top_of_push_all)
  then have t: "mset (global_top s) \<subseteq># mset ?V"
    "length (global_top s) = min (nat ?K) (length ?V)"
    "\<forall>a \<in># mset (global_top s). \<forall>b \<in># mset ?V - mset (global_top s). fst b \<le> fst a"
    by (simp_all add: top_of_def)
  have m: "mset (top_files r) = mset (global_top s)" by (simp add: r)
  have 1: "files r = int (length ?V)" using fl by (simp add: r)
  have 2: "int (length (top_files r)) = min ?K (files r)"
    using t(2) assms(2) fl by (simp add: r)
  have 3: "sorted_wrt (\<lambda>a b. fst a \<ge> fst b) (top_files r)"
    by (simp add: r sorted_desc_sort_key)
  have 4: "mset (top_files r) \<subseteq># mset ?V" using t(1) m by simp
  have 5: "\<forall>a \<in># mset (top_files r). \<forall>b \<in># mset ?V - mset (top_files r). fst b \<le> fst a"
    using t(3) unfolding m .
  have 6: "\<forall>heap item heap'. length heap \<le> nat ?K \<longrightarrow> push_top heap item ?K = Inr heap' \<longrightarrow>
             length heap' \<le> nat ?K"
    using push_top_length by blast
  show ?thesis using 1 2 3 4 5 6 by blast
qed

theorem top_files_correct_witness:
  "never_cancels top_two \<and> 0 \<le> global_top_files top_two \<and>
   scan_paths (posix sample_tree) [''/d''] top_two = Inr sample_result_top_two \<and>
   files sample_result_top_two = int (length (all_visited (posix sample_tree) top_two [''/d''])) \<and>
   int (length (top_files sample_result_top_two))
     = min (global_top_files top_two) (files sample_result_top_two) \<and>
   sorted_wrt (\<lambda>a b. fst a \<ge> fst b) (top_files sample_result_top_two) \<and>
   mset (top_files sample_result_top_two) \<subseteq># mset (all_visited (posix sample_tree) top_two [''/d''])"
proof -
  have 1: "never_cancels top_two"
    by (simp add: never_cancels_def top_two_def default_opts_def)
  have 2: "0 \<le> global_top_files top_two"
    by (simp add: top_two_def)
  have 3: "scan_paths (posix sample_tree) [''/d''] top_two = Inr sample_result_top_two"
    by code_simp
  show ?thesis
    using top_files_correct [OF 1 2 3] 1 2 3 by blast
qed


subsection \<open>The shape of a directory node\<close>

lemma add_size_fields [simp]:
  "children (add_size n d) = children n" "node_size (add_size n d) = node_size n + d"
  "node_path (add_size n d) = node_path n" "is_dir (add_size n d) = is_dir n"
  "node_name (add_size n d) = node_name n"
  by (simp_all add: add_size_def)

lemma append_child_fields [simp]:
  "children (append_child n c) = children n @ [c]" "node_size (append_child n c) = node_size n"
  "node_path (append_child n c) = node_path n" "is_dir (append_child n c) = is_dir n"
  "node_name (append_child n c) = node_name n"
  by (simp_all add: append_child_def)

lemma foldl_append_child_fields [simp]:
  "children (foldl append_child n cs) = children n @ cs"
  "node_size (foldl append_child n cs) = node_size n"
  "node_path (foldl append_child n cs) = node_path n"
  "is_dir (foldl append_child n cs) = is_dir n"
  "node_name (foldl append_child n cs) = node_name n"
  by (induction cs arbitrary: n) simp_all

lemma attach_fields [simp]:
  "node (attach l c) = add_size (append_child (node l) c) (node_size c)"
  "local_top (attach l c) = local_top l" "local_files_count (attach l c) = local_files_count l"
  "local_other_bytes (attach l c) = local_other_bytes l"
  by (simp_all add: attach_def)

lemma fresh_locals_fields [simp]:
  "node (fresh_locals os p) = empty_node os p" "local_top (fresh_locals os p) = []"
  "local_files_count (fresh_locals os p) = 0" "local_other_bytes (fresh_locals os p) = 0"
  by (simp_all add: fresh_locals_def)

lemma empty_node_fields [simp]:
  "children (empty_node os p) = []" "node_size (empty_node os p) = 0"
  "node_path (empty_node os p) = p" "is_dir (empty_node os p)"
  by (simp_all add: empty_node_def)

lemma finish_dir_fields:
  "children (finish_dir p l)
     = children (node l) @ map file_node (sort_key (\<lambda>x. - fst x) (local_top l)) @ overflow p l"
  "node_size (finish_dir p l) = node_size (node l)"
  "node_path (finish_dir p l) = node_path (node l)"
  "is_dir (finish_dir p l) = is_dir (node l)"
  by (auto simp: finish_dir_def overflow_def Let_def file_node_def)

lemma scan_file_locals:
  assumes "heap_inv (local_top l)" and "scan_file os opts nm pth sz l s = Inr (l', s')"
  shows "node l' = add_size (node l) sz"
    and "local_files_count l' = local_files_count l + 1"
    and "heap_inv (local_top l')"
    and "if top_files_per_dir opts \<le> 0
         then local_top l' = local_top l \<and> local_other_bytes l' = local_other_bytes l + sz
         else if int (length (local_top l)) < top_files_per_dir opts
         then mset (local_top l') = add_mset (sz, nm, pth) (mset (local_top l)) \<and>
              length (local_top l') = Suc (length (local_top l)) \<and>
              local_other_bytes l' = local_other_bytes l
         else if sz > fst (local_top l ! 0)
         then local_top l \<noteq> [] \<and>
              mset (local_top l') = add_mset (sz, nm, pth) (mset (local_top l) - {#local_top l ! 0#}) \<and>
              length (local_top l') = length (local_top l) \<and>
              local_other_bytes l' = local_other_bytes l
         else local_top l' = local_top l \<and> local_other_bytes l' = local_other_bytes l + sz"
proof -
  obtain g where g: "push_top (global_top s) (sz, pth) (global_top_files opts) = Inr g"
    using push_top_total by blast
  let ?K = "top_files_per_dir opts"
  let ?lt = "local_top l"
  consider (off) "?K \<le> 0" | (grow) "0 < ?K" "int (length ?lt) < ?K"
    | (full) "0 < ?K" "\<not> int (length ?lt) < ?K"
    by linarith
  then have "node l' = add_size (node l) sz \<and> local_files_count l' = local_files_count l + 1 \<and>
    heap_inv (local_top l') \<and>
    (if ?K \<le> 0
         then local_top l' = ?lt \<and> local_other_bytes l' = local_other_bytes l + sz
         else if int (length ?lt) < ?K
         then mset (local_top l') = add_mset (sz, nm, pth) (mset ?lt) \<and>
              length (local_top l') = Suc (length ?lt) \<and>
              local_other_bytes l' = local_other_bytes l
         else if sz > fst (?lt ! 0)
         then ?lt \<noteq> [] \<and>
              mset (local_top l') = add_mset (sz, nm, pth) (mset ?lt - {#?lt ! 0#}) \<and>
              length (local_top l') = length ?lt \<and>
              local_other_bytes l' = local_other_bytes l
         else local_top l' = ?lt \<and> local_other_bytes l' = local_other_bytes l + sz)"
  proof cases
    case off
    then show ?thesis using assms g by (auto simp: scan_file_def Let_def)
  next
    case grow
    then show ?thesis using assms g by (auto simp: scan_file_def Let_def heap_inv_heappush)
  next
    case full
    then have ne: "?lt \<noteq> []" by auto
    then obtain x xs where lt: "?lt = x # xs" by (cases ?lt) auto
    obtain h' where hr: "heapreplace ?lt (sz, nm, pth) = Inr (?lt ! 0, h')" "heap_inv h'"
      "mset h' = add_mset (sz, nm, pth) (mset ?lt - {#?lt ! 0#})" "length h' = length ?lt"
      using heapreplace_props[OF assms(1) ne, of "(sz, nm, pth)"] by blast
    show ?thesis
    proof (cases "sz > fst (?lt ! 0)")
      case True
      then have "l' = l\<lparr>local_files_count := local_files_count l + 1, node := add_size (node l) sz,
                         local_top := h'\<rparr>"
        using assms(2) g full hr(1) lt by (auto simp: scan_file_def Let_def)
      then show ?thesis using full True hr ne by simp
    next
      case False
      then have "l' = l\<lparr>local_files_count := local_files_count l + 1, node := add_size (node l) sz,
                         local_other_bytes := local_other_bytes l + sz\<rparr>"
        using assms(2) g full lt by (auto simp: scan_file_def Let_def)
      then show ?thesis using full False assms(1) by simp
    qed
  qed
  then show "node l' = add_size (node l) sz"
    and "local_files_count l' = local_files_count l + 1"
    and "heap_inv (local_top l')"
    and "if top_files_per_dir opts \<le> 0
         then local_top l' = local_top l \<and> local_other_bytes l' = local_other_bytes l + sz
         else if int (length (local_top l)) < top_files_per_dir opts
         then mset (local_top l') = add_mset (sz, nm, pth) (mset (local_top l)) \<and>
              length (local_top l') = Suc (length (local_top l)) \<and>
              local_other_bytes l' = local_other_bytes l
         else if sz > fst (local_top l ! 0)
         then local_top l \<noteq> [] \<and>
              mset (local_top l') = add_mset (sz, nm, pth) (mset (local_top l) - {#local_top l ! 0#}) \<and>
              length (local_top l') = length (local_top l) \<and>
              local_other_bytes l' = local_other_bytes l
         else local_top l' = local_top l \<and> local_other_bytes l' = local_other_bytes l + sz"
    by blast+
qed

lemma set_of_mset_add: "mset ys = add_mset x (mset xs) \<Longrightarrow> set ys = insert x (set xs)"
  by (metis set_mset_add_mset_insert set_mset_mset)

lemma set_of_mset_replace:
  assumes "mset ys = add_mset x (mset xs - {#y#})"
  shows "set ys \<subseteq> insert x (set xs)"
proof
  fix z assume "z \<in> set ys"
  then have "z \<in># add_mset x (mset xs - {#y#})" using assms by (metis set_mset_mset)
  then have "z = x \<or> z \<in># mset xs" by (auto dest: in_diffD)
  then show "z \<in> insert x (set xs)" by auto
qed

lemma scan_file_retained:
  assumes "heap_inv (local_top l)" and "scan_file os opts nm pth sz l s = Inr (l', s')"
  shows "set (local_top l') \<subseteq> insert (sz, nm, pth) (set (local_top l))"
    and "int (length (local_top l)) \<le> max 0 (top_files_per_dir opts) \<Longrightarrow>
         int (length (local_top l')) \<le> max 0 (top_files_per_dir opts)"
proof -
  note c = scan_file_locals(4)[OF assms]
  show "set (local_top l') \<subseteq> insert (sz, nm, pth) (set (local_top l))"
    using c by (auto split: if_splits dest: set_of_mset_add set_of_mset_replace)
  show "int (length (local_top l')) \<le> max 0 (top_files_per_dir opts)"
    if "int (length (local_top l)) \<le> max 0 (top_files_per_dir opts)"
    using c that by (auto split: if_splits)
qed


lemma file_node_fields [simp]:
  "node_size (file_node t) = fst t" "node_name (file_node t) = fst (snd t)"
  "node_path (file_node t) = snd (snd t)" "\<not> is_dir (file_node t)" "children (file_node t) = []"
  by (simp_all add: file_node_def split: prod.splits)

lemma overflow_cases:
  "overflow p l = [] \<or> (\<exists>c b. 0 < c \<and> 0 < b \<and> overflow p l = [other_files_node p c b])"
  by (auto simp: overflow_def Let_def)

lemma sorted_file_nodes:
  "sorted_wrt (\<lambda>a b. node_size a \<ge> node_size b)
     (map file_node (sort_key (\<lambda>x. - fst x) (ts :: (int \<times> string \<times> string) list)))"
  using sorted_desc_sort_key[of ts] by (simp add: sorted_wrt_map)

lemma children_ordered_empty: "children n = [] \<Longrightarrow> children_ordered opts p listing n"
  by (rule children_ordered.intros[of n "[]" "[]" "[]"]) simp_all

lemma scan_shape:
  shows "\<forall>n s'. scan_dir os opts p listing s = Inr (n, s') \<longrightarrow>
           is_dir n \<and> node_path n = p \<and> children_ordered opts p listing n"
    and "\<forall>l' b s'. heap_inv (local_top l) \<longrightarrow> scan_loop os opts p entries l s = Inr (l', b, s') \<longrightarrow>
           heap_inv (local_top l') \<and> node_path (node l') = node_path (node l) \<and>
           is_dir (node l') = is_dir (node l) \<and>
           (\<exists>D. children (node l') = children (node l) @ D \<and>
                list_all2 (\<lambda>e d. is_dir d \<and> node_path d = fst e \<and> children_ordered opts (fst e) (snd e) d)
                  (take (length D) (subdirs opts entries)) D) \<and>
           set (local_top l') \<subseteq> set (local_top l) \<union> set (dir_files opts entries) \<and>
           (int (length (local_top l)) \<le> max 0 (top_files_per_dir opts) \<longrightarrow>
            int (length (local_top l')) \<le> max 0 (top_files_per_dir opts))"
proof (induction p listing s and p entries l s rule: scan_induct[of opts _ os])
  case (dir p listing s)
  show ?case
  proof (intro allI impI)
    fix n s' assume sd: "scan_dir os opts p listing s = Inr (n, s')"
    show "is_dir n \<and> node_path n = p \<and> children_ordered opts p listing n"
    proof (cases "fst (cancelled opts s) \<or> listing = ScandirError")
      case True
      then have "n = empty_node os p" using sd by (simp add: scan_dir_stop)
      then show ?thesis by (simp add: children_ordered_empty)
    next
      case False
      then obtain entries fails where li: "listing = Scandir entries fails"
        by (cases listing) auto
      have nc: "\<not> fst (cancelled opts s)" using False by simp
      obtain l br s2 where lp: "scan_loop os opts p entries (fresh_locals os p) (snd (cancelled opts s)) = Inr (l, br, s2)"
        using scan_total(2) by blast
      have n: "n = (if fails \<and> \<not> br then node l else finish_dir p l)"
        using sd li scan_dir_list[OF nc lp] by simp
      have inv: "node_path (node l) = p" "is_dir (node l)"
        "set (local_top l) \<subseteq> set (dir_files opts entries)"
        "int (length (local_top l)) \<le> max 0 (top_files_per_dir opts)"
        and "\<exists>D. children (node l) = D \<and>
                list_all2 (\<lambda>e d. is_dir d \<and> node_path d = fst e \<and> children_ordered opts (fst e) (snd e) d)
                  (take (length D) (subdirs opts entries)) D"
        using dir[OF li nc, rule_format, OF _ lp] by simp_all
      then have D: "list_all2 (\<lambda>e d. is_dir d \<and> node_path d = fst e \<and> children_ordered opts (fst e) (snd e) d)
                  (take (length (children (node l))) (subdirs opts (entries_of listing))) (children (node l))"
        using li by simp
      have co: "children_ordered opts p listing n"
      proof (cases "fails \<and> \<not> br")
        case True
        then have "children n = children (node l) @ [] @ []" using n by simp
        then show ?thesis using D
          by (rule children_ordered.intros) simp_all
      next
        case F2: False
        let ?F = "map file_node (sort_key (\<lambda>x. - fst x) (local_top l))"
        have "children n = children (node l) @ ?F @ overflow p l"
          using n F2 by (simp add: finish_dir_fields)
        then show ?thesis using D
        proof (rule children_ordered.intros)
          show "\<forall>f \<in> set ?F. \<not> is_dir f \<and> children f = [] \<and>
                  (node_size f, node_name f, node_path f) \<in> set (dir_files opts (entries_of listing))"
            using inv(3) li by auto
          show "sorted_wrt (\<lambda>a b. node_size a \<ge> node_size b) ?F" by (rule sorted_file_nodes)
          show "int (length ?F) \<le> max 0 (top_files_per_dir opts)" using inv(4) by simp
          show "overflow p l = [] \<or> (\<exists>c b. 0 < c \<and> 0 < b \<and> overflow p l = [other_files_node p c b])"
            by (rule overflow_cases)
        qed
      qed
      show ?thesis using co inv(1,2) n by (simp add: finish_dir_fields)
    qed
  qed
next
  case (nil p l s)
  show ?case by simp
next
  case (cons p nm pth symlink st rest l s)
  let ?R = "\<lambda>e d. is_dir d \<and> node_path d = fst e \<and> children_ordered opts (fst e) (snd e) d"
  let ?e = "DirEntry nm pth symlink st"
  show ?case
  proof (intro allI impI)
    fix l' b s'
    assume hi: "heap_inv (local_top l)"
      and sl: "scan_loop os opts p (?e # rest) l s = Inr (l', b, s')"
    show "heap_inv (local_top l') \<and> node_path (node l') = node_path (node l) \<and>
           is_dir (node l') = is_dir (node l) \<and>
           (\<exists>D. children (node l') = children (node l) @ D \<and>
                list_all2 ?R (take (length D) (subdirs opts (?e # rest))) D) \<and>
           set (local_top l') \<subseteq> set (local_top l) \<union> set (dir_files opts (?e # rest)) \<and>
           (int (length (local_top l)) \<le> max 0 (top_files_per_dir opts) \<longrightarrow>
            int (length (local_top l')) \<le> max 0 (top_files_per_dir opts))"
    proof (cases "fst (cancelled opts s)")
      case True
      then have "l' = l" using sl by (simp add: scan_loop_cancel)
      then show ?thesis using hi by simp
    next
      case nc: False
      show ?thesis
      proof (cases "skips opts symlink \<or> st = StatError")
        case True
        then have lp: "scan_loop os opts p rest l (snd (cancelled opts s)) = Inr (l', b, s')"
          using sl by (simp add: scan_loop_skip[OF nc True])
        have e: "subdirs opts (?e # rest) = subdirs opts rest" "dir_files opts (?e # rest) = dir_files opts rest"
          using True by auto
        show ?thesis unfolding e using cons(1)[OF nc True, rule_format, OF hi lp] .
      next
        case False
        then have ns: "\<not> skips opts symlink" by simp
        show ?thesis
        proof (cases st)
          case StatError
          then show ?thesis using False by simp
        next
          case (StatFile sz)
          obtain l2 s2 where sf: "scan_file os opts nm pth sz l (snd (cancelled opts s)) = Inr (l2, s2)"
            using scan_file_total by blast
          have lp: "scan_loop os opts p rest l2 s2 = Inr (l', b, s')"
            using sl by (simp add: scan_loop_file[OF nc ns StatFile sf])
          have e: "subdirs opts (?e # rest) = subdirs opts rest"
            "dir_files opts (?e # rest) = (sz, nm, pth) # dir_files opts rest"
            using ns StatFile by auto
          note f = scan_file_locals(1,3)[OF hi sf] scan_file_retained[OF hi sf]
          note ih = cons(4)[OF nc ns StatFile sf, rule_format, OF f(2) lp]
          show ?thesis unfolding e using ih f(1,3,4) by auto
        next
          case (StatDir sub)
          obtain child s2 where sd: "scan_dir os opts pth sub (entered (snd (cancelled opts s))) = Inr (child, s2)"
            using scan_total(1) by blast
          have lp: "scan_loop os opts p rest (attach l child) s2 = Inr (l', b, s')"
            using sl by (simp add: scan_loop_dir[OF nc ns StatDir sd])
          have e: "subdirs opts (?e # rest) = (pth, sub) # subdirs opts rest"
            "dir_files opts (?e # rest) = dir_files opts rest"
            using ns StatDir by auto
          have ch: "?R (pth, sub) child"
            using cons(2)[OF nc ns StatDir, rule_format, OF sd] by simp
          have hi': "heap_inv (local_top (attach l child))" using hi by simp
          note ih = cons(3)[OF nc ns StatDir sd, rule_format, OF hi' lp]
          obtain D where D: "children (node l') = children (node (attach l child)) @ D"
            "list_all2 ?R (take (length D) (subdirs opts rest)) D"
            using ih by blast
          have "children (node l') = children (node l) @ (child # D)" using D(1) by simp
          moreover have "list_all2 ?R (take (length (child # D)) (subdirs opts (?e # rest))) (child # D)"
            unfolding e using ch D(2) by simp
          ultimately have "\<exists>D. children (node l') = children (node l) @ D \<and>
                list_all2 ?R (take (length D) (subdirs opts (?e # rest))) D"
            by blast
          then show ?thesis using ih unfolding e(2) by simp
        qed
      qed
    qed
  qed
qed

lemma scan_loop_induct [case_names nil cons]:
  fixes Q :: "string \<Rightarrow> dir_entry list \<Rightarrow> dir_locals \<Rightarrow> scan_state \<Rightarrow> bool"
  assumes nil: "\<And>p l s. Q p [] l s"
    and cons: "\<And>p nm pth symlink st rest l s.
        (\<not> fst (cancelled opts s) \<Longrightarrow> skips opts symlink \<or> st = StatError \<Longrightarrow>
           Q p rest l (snd (cancelled opts s))) \<Longrightarrow>
        (\<And>sub child s2. \<not> fst (cancelled opts s) \<Longrightarrow> \<not> skips opts symlink \<Longrightarrow> st = StatDir sub \<Longrightarrow>
           scan_dir os opts pth sub (entered (snd (cancelled opts s))) = Inr (child, s2) \<Longrightarrow>
           Q p rest (attach l child) s2) \<Longrightarrow>
        (\<And>sz l2 s2. \<not> fst (cancelled opts s) \<Longrightarrow> \<not> skips opts symlink \<Longrightarrow> st = StatFile sz \<Longrightarrow>
           scan_file os opts nm pth sz l (snd (cancelled opts s)) = Inr (l2, s2) \<Longrightarrow>
           Q p rest l2 s2) \<Longrightarrow>
        Q p (DirEntry nm pth symlink st # rest) l s"
  shows "Q p entries l s"
proof (rule scan_induct(2)[where P = "\<lambda>_ _ _. True" and Q = Q and opts = opts and os = os], goal_cases)
  case 1
  show ?case by simp
next
  case 2
  show ?case by (rule nil)
next
  case (3 p nm pth symlink st rest l s)
  show ?case
    by (rule cons) (use 3 in blast)+
qed

lemma scan_loop_retains:
  assumes nc: "never_cancels opts" and k: "k = nat (top_files_per_dir opts)"
  shows "\<forall>seen l' b s'.
           heap_inv (local_top l) \<longrightarrow> mset (local_top l) = mset (take k seen) \<longrightarrow>
           local_other_bytes l = sum_list (map fst (drop k seen)) \<longrightarrow>
           local_files_count l = int (length seen) \<longrightarrow>
           no_displacement k (seen @ dir_files opts entries) \<longrightarrow>
           scan_loop os opts p entries l s = Inr (l', b, s') \<longrightarrow>
             \<not> b \<and> mset (local_top l') = mset (take k (seen @ dir_files opts entries)) \<and>
             local_other_bytes l' = sum_list (map fst (drop k (seen @ dir_files opts entries))) \<and>
             local_files_count l' = int (length (seen @ dir_files opts entries)) \<and>
             length (children (node l')) = length (children (node l)) + length (subdirs opts entries) \<and>
             node_size (node l') - sum_list (map node_size (children (node l')))
               = node_size (node l) - sum_list (map node_size (children (node l)))
                 + sum_list (map fst (dir_files opts entries))"
proof (induction p entries l s rule: scan_loop_induct[where opts = opts and os = os])
  case (nil p l s)
  show ?case by simp
next
  case (cons p nm pth symlink st rest l s)
  let ?e = "DirEntry nm pth symlink st"
  note ncs = never_cancels_cancelled[OF nc, of s]
  show ?case
  proof (intro allI impI)
    fix seen l' b s'
    assume hi: "heap_inv (local_top l)" and ms: "mset (local_top l) = mset (take k seen)"
      and ob: "local_other_bytes l = sum_list (map fst (drop k seen))"
      and fc: "local_files_count l = int (length seen)"
      and nd: "no_displacement k (seen @ dir_files opts (?e # rest))"
      and sl: "scan_loop os opts p (?e # rest) l s = Inr (l', b, s')"
    let ?goal = "\<lambda>fs sd. \<not> b \<and> mset (local_top l') = mset (take k (seen @ fs)) \<and>
             local_other_bytes l' = sum_list (map fst (drop k (seen @ fs))) \<and>
             local_files_count l' = int (length (seen @ fs)) \<and>
             length (children (node l')) = length (children (node l)) + length (sd :: (string \<times> scandir_result) list) \<and>
             node_size (node l') - sum_list (map node_size (children (node l')))
               = node_size (node l) - sum_list (map node_size (children (node l)))
                 + sum_list (map fst fs)"
    show "?goal (dir_files opts (?e # rest)) (subdirs opts (?e # rest))"
    proof (cases "skips opts symlink \<or> st = StatError")
      case True
      then have lp: "scan_loop os opts p rest l (snd (cancelled opts s)) = Inr (l', b, s')"
        using sl by (simp add: scan_loop_skip[OF ncs True])
      have e: "subdirs opts (?e # rest) = subdirs opts rest" "dir_files opts (?e # rest) = dir_files opts rest"
        using True by auto
      show ?thesis
        unfolding e using cons(1)[OF ncs True, rule_format, OF hi ms ob fc _ lp] nd[unfolded e] .
    next
      case False
      then have ns: "\<not> skips opts symlink" by simp
      show ?thesis
      proof (cases st)
        case StatError
        then show ?thesis using False by simp
      next
        case (StatDir sub)
        obtain child s2 where sd: "scan_dir os opts pth sub (entered (snd (cancelled opts s))) = Inr (child, s2)"
          using scan_total(1) by blast
        have lp: "scan_loop os opts p rest (attach l child) s2 = Inr (l', b, s')"
          using sl by (simp add: scan_loop_dir[OF ncs ns StatDir sd])
        have e: "subdirs opts (?e # rest) = (pth, sub) # subdirs opts rest"
          "dir_files opts (?e # rest) = dir_files opts rest"
          using ns StatDir by auto
        have ih: "\<not> b \<and> mset (local_top l') = mset (take k (seen @ dir_files opts rest)) \<and>
             local_other_bytes l' = sum_list (map fst (drop k (seen @ dir_files opts rest))) \<and>
             local_files_count l' = int (length (seen @ dir_files opts rest)) \<and>
             length (children (node l')) = length (children (node (attach l child))) + length (subdirs opts rest) \<and>
             node_size (node l') - sum_list (map node_size (children (node l')))
               = node_size (node (attach l child)) - sum_list (map node_size (children (node (attach l child))))
                 + sum_list (map fst (dir_files opts rest))"
          using cons(2)[OF ncs ns StatDir sd, rule_format, of seen l' b s'] hi ms ob fc nd[unfolded e] lp
          by simp
        show ?thesis unfolding e using ih by simp
      next
        case (StatFile sz)
        obtain l2 s2 where sf: "scan_file os opts nm pth sz l (snd (cancelled opts s)) = Inr (l2, s2)"
          using scan_file_total by blast
        have lp: "scan_loop os opts p rest l2 s2 = Inr (l', b, s')"
          using sl by (simp add: scan_loop_file[OF ncs ns StatFile sf])
        let ?x = "(sz, nm, pth)"
        have e: "subdirs opts (?e # rest) = subdirs opts rest"
          "dir_files opts (?e # rest) = ?x # dir_files opts rest"
          using ns StatFile by auto
        note f = scan_file_locals[OF hi sf]
        have len: "length (local_top l) = min k (length seen)"
          using ms by (metis length_take size_mset min.commute)
        have step: "mset (local_top l2) = mset (take k (seen @ [?x])) \<and>
                    local_other_bytes l2 = sum_list (map fst (drop k (seen @ [?x])))"
        proof -
          consider (off) "top_files_per_dir opts \<le> 0"
            | (grow) "0 < top_files_per_dir opts" "int (length (local_top l)) < top_files_per_dir opts"
            | (full) "0 < top_files_per_dir opts" "\<not> int (length (local_top l)) < top_files_per_dir opts"
            by linarith
          then show ?thesis
          proof cases
            case off
            then have "k = 0" using k by simp
            then show ?thesis using f(4) off ob ms by simp
          next
            case grow
            then have "length seen < k" using len k by linarith
            then show ?thesis using f(4) grow ob ms by simp
          next
            case full
            then have kl: "k \<le> length seen" "0 < k" using len k by linarith+
            then have ne: "local_top l \<noteq> []" using len by auto
            then have "local_top l ! 0 \<in># mset (local_top l)"
              by (metis length_greater_0_conv nth_mem_mset)
            then have "local_top l ! 0 \<in> set (take k seen)"
              using ms by (metis set_mset_mset)
            then have y: "local_top l ! 0 \<in> set (take k (seen @ ?x # dir_files opts rest))"
              using kl by simp
            have x: "?x \<in> set (drop k (seen @ ?x # dir_files opts rest))"
              using kl by simp
            have "fst ?x \<le> fst (local_top l ! 0)"
              using nd x y unfolding e no_displacement_def by blast
            then have "\<not> sz > fst (local_top l ! 0)" by simp
            then have "local_top l2 = local_top l" "local_other_bytes l2 = local_other_bytes l + sz"
              using f(4) full by auto
            then show ?thesis using ms ob kl by simp
          qed
        qed
        have ih: "\<not> b \<and> mset (local_top l') = mset (take k ((seen @ [?x]) @ dir_files opts rest)) \<and>
             local_other_bytes l' = sum_list (map fst (drop k ((seen @ [?x]) @ dir_files opts rest))) \<and>
             local_files_count l' = int (length ((seen @ [?x]) @ dir_files opts rest)) \<and>
             length (children (node l')) = length (children (node l2)) + length (subdirs opts rest) \<and>
             node_size (node l') - sum_list (map node_size (children (node l')))
               = node_size (node l2) - sum_list (map node_size (children (node l2)))
                 + sum_list (map fst (dir_files opts rest))"
        proof (rule cons(3)[OF ncs ns StatFile sf, rule_format, of "seen @ [?x]" l' b s'])
          show "heap_inv (local_top l2)" by (rule f(3))
          show "mset (local_top l2) = mset (take k (seen @ [?x]))" using step by simp
          show "local_other_bytes l2 = sum_list (map fst (drop k (seen @ [?x])))" using step by simp
          show "local_files_count l2 = int (length (seen @ [?x]))" using f(2) fc by simp
          show "no_displacement k ((seen @ [?x]) @ dir_files opts rest)" using nd unfolding e by simp
          show "scan_loop os opts p rest l2 s2 = Inr (l', b, s')" by (rule lp)
        qed
        show ?thesis unfolding e using ih f(1) by simp
      qed
    qed
  qed
qed


lemma scan_roots_shape:
  "scan_roots os opts ps r s = Inr (r', s') \<Longrightarrow>
     \<exists>D. children r' = children r @ D \<and>
         list_all2 (\<lambda>q d. is_dir d \<and> node_path d = q \<and> children_ordered opts q (scandir os q) d)
           (take (length D) ps) D"
proof (induction ps arbitrary: r s)
  case Nil
  then show ?case by simp
next
  case (Cons q ps)
  let ?R = "\<lambda>q d. is_dir d \<and> node_path d = q \<and> children_ordered opts q (scandir os q) d"
  obtain c0 s1 where cs: "cancelled opts s = (c0, s1)" by (cases "cancelled opts s") auto
  show ?case
  proof (cases c0)
    case True
    then have "r' = r" using Cons.prems cs by simp
    then show ?thesis by simp
  next
    case False
    obtain child s2 where sd: "scan_dir os opts q (scandir os q) s1 = Inr (child, s2)"
      using scan_total(1) by blast
    then have sr: "scan_roots os opts ps (add_size (append_child r child) (node_size child)) s2 = Inr (r', s')"
      using Cons.prems cs False by simp
    obtain D where D: "children r' = children (add_size (append_child r child) (node_size child)) @ D"
      "list_all2 ?R (take (length D) ps) D"
      using Cons.IH[OF sr] by blast
    have ch: "?R q child" using scan_shape(1)[of os opts q "scandir os q" s1, rule_format, OF sd] by simp
    have "children r' = children r @ (child # D)" using D(1) by simp
    moreover have "list_all2 ?R (take (length (child # D)) (q # ps)) (child # D)"
      using ch D(2) by simp
    ultimately show ?thesis by blast
  qed
qed

subsection \<open>The order of the children\<close>

text \<open>
  C10: in the result of \<^verbatim>\<open>scan_paths\<close> the children of the root are directory nodes of
  the root paths, in their order (a prefix of them when the scan is cancelled), and in
  each of them, and in every directory node below, the children come in a fixed order:
  the nodes of the subdirectories first, in the order of the listing, then the retained
  file nodes sorted by non-increasing size, and the overflow node, when there is one,
  at the end.
\<close>

theorem children_order:
  assumes "scan_paths os paths opts = Inr r"
  shows "list_all2 (\<lambda>q d. is_dir d \<and> node_path d = q \<and> children_ordered opts q (scandir os q) d)
           (take (length (children (root r))) (scanned_paths r)) (children (root r))"
proof -
  let ?s0 = "\<lparr>files = 0, dirs = 0, bytes_scanned = 0, ext_stats = [], global_top = [], polls = 0\<rparr>"
  obtain name root_node s where
    sr: "scan_roots os opts (normalize_paths os paths)
           (Node name (join '';'' (normalize_paths os paths)) True 0 []) ?s0 = Inr (root_node, s)"
    and r: "r = \<lparr>files = files s, dirs = dirs s, bytes_scanned = bytes_scanned s,
                 ext_stats = ext_stats s, root = root_node,
                 top_files = sort_key (\<lambda>x. - fst x) (global_top s),
                 scanned_paths = normalize_paths os paths\<rparr>"
    using assms by (auto simp: scan_paths_def Let_def split: sum.splits)
  show ?thesis using scan_roots_shape[OF sr] by (auto simp: r)
qed

theorem children_order_witness:
  "scan_paths (posix sample_tree) [''/d''] default_opts = Inr sample_result \<and>
   list_all2 (\<lambda>q d. is_dir d \<and> node_path d = q \<and>
                children_ordered default_opts q (scandir (posix sample_tree) q) d)
     (take (length (children (root sample_result))) (scanned_paths sample_result))
     (children (root sample_result))"
proof -
  have 1: "scan_paths (posix sample_tree) [''/d''] default_opts = Inr sample_result"
    by code_simp
  show ?thesis using children_order [OF 1] 1 by blast
qed

subsection \<open>The overflow node\<close>

text \<open>
  C2 as stated (more than \<open>K_dir\<close> files give exactly one overflow child) fails: with a
  limit of one file, a directory holding a file of 5 bytes and an empty file gets the
  node of the first file as its only child. The overflow node is left out when the
  files it stands for have no bytes.
\<close>

theorem zero_byte_overflow_counterexample:
  "map_sum id root (scan_paths (posix empty_file_dir) [''/d''] keep_one)
     = Inr (Node ''d'' ''/d'' True 5 [Node ''d'' ''/d'' True 5 [Node ''a'' ''/d/a'' False 5 []]])"
  by code_simp

text \<open>
  What the node a full scan of a directory returns looks like when none of its files
  displaces a retained one.
\<close>

lemma retained_without_displacement:
  assumes "never_cancels opts"
    and "no_displacement (nat (top_files_per_dir opts)) (dir_files opts entries)"
    and "scan_dir os opts p (Scandir entries False) s = Inr (n, s')"
  shows "\<exists>D H.
           children n
             = D @ map file_node (sort_key (\<lambda>x. - fst x) H) @
               (if 0 < sum_list (map fst (drop (nat (top_files_per_dir opts)) (dir_files opts entries)))
                then [other_files_node p
                        (int (length (drop (nat (top_files_per_dir opts)) (dir_files opts entries))))
                        (sum_list (map fst (drop (nat (top_files_per_dir opts)) (dir_files opts entries))))]
                else []) \<and>
           list_all2 (\<lambda>e d. is_dir d \<and> node_path d = fst e) (subdirs opts entries) D \<and>
           mset H = mset (take (nat (top_files_per_dir opts)) (dir_files opts entries)) \<and>
           int (length H) \<le> max 0 (top_files_per_dir opts) \<and>
           node_size n = sum_list (map fst (dir_files opts entries)) + sum_list (map node_size D)"
proof -
  let ?k = "nat (top_files_per_dir opts)"
  let ?fs = "dir_files opts entries"
  note ncs = never_cancels_cancelled[OF assms(1), of s]
  obtain l br s2 where lp: "scan_loop os opts p entries (fresh_locals os p) (snd (cancelled opts s)) = Inr (l, br, s2)"
    using scan_total(2) by blast
  have n: "n = finish_dir p l" using assms(3) scan_dir_list[OF ncs lp, of False] by simp
  have ret: "mset (local_top l) = mset (take ?k ?fs)"
    "local_other_bytes l = sum_list (map fst (drop ?k ?fs))"
    "local_files_count l = int (length ?fs)"
    "length (children (node l)) = length (subdirs opts entries)"
    "node_size (node l) - sum_list (map node_size (children (node l))) = sum_list (map fst ?fs)"
    using scan_loop_retains[OF assms(1) refl, rule_format, OF _ _ _ _ _ lp, where seen = "[]"] assms(2)
    by simp_all
  have "list_all2 (\<lambda>e d. is_dir d \<and> node_path d = fst e \<and> children_ordered opts (fst e) (snd e) d)
          (take (length (children (node l))) (subdirs opts entries)) (children (node l))"
    using scan_shape(2)[rule_format, OF _ lp] by auto
  then have D: "list_all2 (\<lambda>e d. is_dir d \<and> node_path d = fst e) (subdirs opts entries) (children (node l))"
    unfolding ret(4) by (auto elim!: list_all2_mono)
  have len: "length (local_top l) = min ?k (length ?fs)"
    using ret(1) by (metis length_take size_mset min.commute)
  have oc: "max 0 (local_files_count l - int (length (local_top l))) = int (length (drop ?k ?fs))"
    using ret(3) len by simp
  have pos: "0 < int (length (drop ?k ?fs))" if "0 < sum_list (map fst (drop ?k ?fs))"
  proof -
    have "drop ?k ?fs \<noteq> []" using that by auto
    then have "0 < length (drop ?k ?fs)" by (rule length_greater_0_conv[THEN iffD2])
    then show ?thesis by (rule of_nat_0_less_iff[THEN iffD2])
  qed
  have ov: "overflow p l
              = (if 0 < sum_list (map fst (drop ?k ?fs))
                 then [other_files_node p (int (length (drop ?k ?fs))) (sum_list (map fst (drop ?k ?fs)))]
                 else [])"
    using pos by (simp add: overflow_def oc ret(2) Let_def del: length_drop)
  have ch: "children n = children (node l) @ map file_node (sort_key (\<lambda>x. - fst x) (local_top l)) @
               (if 0 < sum_list (map fst (drop ?k ?fs))
                 then [other_files_node p (int (length (drop ?k ?fs))) (sum_list (map fst (drop ?k ?fs)))]
                 else [])"
    unfolding n finish_dir_fields ov ..
  have lenH: "int (length (local_top l)) \<le> max 0 (top_files_per_dir opts)"
    using len by simp
  have sz: "node_size n = sum_list (map fst ?fs) + sum_list (map node_size (children (node l)))"
    using ret(5) by (simp add: n finish_dir_fields)
  show ?thesis using ch D ret(1) lenH sz by blast
qed

text \<open>The children of every node \<^verbatim>\<open>scan_dir\<close> returns: directories, then at most as many
  files of the directory as the limit allows, then no or one overflow node.\<close>

lemma named_children_bounded:
  assumes "scan_dir os opts p listing s = Inr (n, s')"
  shows "\<exists>D F X. children n = D @ F @ X \<and> (\<forall>d \<in> set D. is_dir d) \<and>
           (\<forall>f \<in> set F. \<not> is_dir f \<and>
              (node_size f, node_name f, node_path f) \<in> set (dir_files opts (entries_of listing))) \<and>
           int (length F) \<le> max 0 (top_files_per_dir opts) \<and>
           (X = [] \<or> (\<exists>c b. 0 < c \<and> 0 < b \<and>
              X = [Node (other_files_prefix @ str_int c @ '')'') p False b []]))"
proof -
  have "children_ordered opts p listing n"
    using scan_shape(1)[rule_format, OF assms] by simp
  then show ?thesis
  proof (cases rule: children_ordered.cases)
    case (ordered D F X)
    have "\<forall>d \<in> set D. is_dir d"
      using ordered(2) by (auto simp: list_all2_conv_all_nth in_set_conv_nth)
    moreover have "\<forall>f \<in> set F. \<not> is_dir f \<and>
              (node_size f, node_name f, node_path f) \<in> set (dir_files opts (entries_of listing))"
      using ordered(3) by blast
    moreover have "X = [] \<or> (\<exists>c b. 0 < c \<and> 0 < b \<and>
              X = [Node (other_files_prefix @ str_int c @ '')'') p False b []])"
      using ordered(6) by (simp add: other_files_node_def)
    ultimately show ?thesis using ordered(1,5) by blast
  qed
qed

lemma dir_files_file_entries:
  "dir_files opts (map (\<lambda>i. file_entry d (f i) (g i)) xs)
     = map (\<lambda>i. (g i, f i, d @ ''/'' @ f i)) xs"
  by (induction xs) (simp_all add: file_entry_def skips_def)

lemma subdirs_file_entries:
  "subdirs opts (map (\<lambda>i. file_entry d (f i) (g i)) xs) = []"
  by (induction xs) (simp_all add: file_entry_def skips_def)

lemma no_displacement_sizes:
  "no_displacement k fs
     \<longleftrightarrow> (\<forall>x \<in> set (drop k (map fst fs)). \<forall>y \<in> set (take k (map fst fs)). x \<le> y)"
  by (auto simp: no_displacement_def drop_map take_map)

lemma sizes_hundred_files: "map fst (dir_files default_opts hundred_files) = rev [1..100]"
  by (simp add: hundred_files_def dir_files_file_entries comp_def)

text \<open>
  C2, amended. The node of a directory never has more than \<open>K_dir\<close> children that are
  files of the directory (none when \<open>K_dir\<close> is not positive): they stand between the
  directory nodes and the overflow node, if there is one. When the directory is listed
  and scanned to the end and none of its files displaces a retained one, the file
  children are the first \<open>K_dir\<close> files sorted by decreasing size, and one overflow
  node follows them exactly when the other files have a positive total size; the
  overflow node has that total as its size, the number of these files in its name, the
  path of the directory, and no children. The size of the directory node is then the
  sum of the sizes of all its files and of its subdirectory nodes.
\<close>

theorem overflow_without_displacement:
  assumes "scan_dir os opts p listing s = Inr (n, s')"
  shows
    "(\<exists>D F X. children n = D @ F @ X \<and> (\<forall>d \<in> set D. is_dir d) \<and>
        (\<forall>f \<in> set F. \<not> is_dir f \<and>
           (node_size f, node_name f, node_path f) \<in> set (dir_files opts (entries_of listing))) \<and>
        int (length F) \<le> max 0 (top_files_per_dir opts) \<and>
        (X = [] \<or> (\<exists>c b. 0 < c \<and> 0 < b \<and>
           X = [Node (other_files_prefix @ str_int c @ '')'') p False b []]))) \<and>
     (never_cancels opts \<and> listing = Scandir entries False \<and>
      no_displacement (nat (top_files_per_dir opts)) (dir_files opts entries) \<longrightarrow>
        (\<exists>D H.
           children n
             = D @ map (\<lambda>(sz, nm, pth). Node nm pth False sz []) (sort_key (\<lambda>x. - fst x) H) @
               (if 0 < sum_list (map fst (drop (nat (top_files_per_dir opts)) (dir_files opts entries)))
                then [Node (other_files_prefix @
                              str_int (int (length (drop (nat (top_files_per_dir opts))
                                                      (dir_files opts entries)))) @ '')'')
                        p False
                        (sum_list (map fst (drop (nat (top_files_per_dir opts)) (dir_files opts entries))))
                        []]
                else []) \<and>
           list_all2 (\<lambda>e d. is_dir d \<and> node_path d = fst e) (subdirs opts entries) D \<and>
           mset H = mset (take (nat (top_files_per_dir opts)) (dir_files opts entries)) \<and>
           node_size n = sum_list (map fst (dir_files opts entries)) + sum_list (map node_size D)))"
proof (intro conjI impI)
  show "\<exists>D F X. children n = D @ F @ X \<and> (\<forall>d \<in> set D. is_dir d) \<and>
        (\<forall>f \<in> set F. \<not> is_dir f \<and>
           (node_size f, node_name f, node_path f) \<in> set (dir_files opts (entries_of listing))) \<and>
        int (length F) \<le> max 0 (top_files_per_dir opts) \<and>
        (X = [] \<or> (\<exists>c b. 0 < c \<and> 0 < b \<and>
           X = [Node (other_files_prefix @ str_int c @ '')'') p False b []]))"
    using assms by (rule named_children_bounded)
next
  assume a: "never_cancels opts \<and> listing = Scandir entries False \<and>
      no_displacement (nat (top_files_per_dir opts)) (dir_files opts entries)"
  then have sd: "scan_dir os opts p (Scandir entries False) s = Inr (n, s')"
    using assms by simp
  have fn: "file_node = (\<lambda>(sz, nm, pth). Node nm pth False sz [])"
    by (simp add: file_node_def)
  from a have nc: "never_cancels opts"
    and nd: "no_displacement (nat (top_files_per_dir opts)) (dir_files opts entries)"
    by simp_all
  obtain D H where
    "children n
       = D @ map file_node (sort_key (\<lambda>x. - fst x) H) @
         (if 0 < sum_list (map fst (drop (nat (top_files_per_dir opts)) (dir_files opts entries)))
          then [other_files_node p
                  (int (length (drop (nat (top_files_per_dir opts)) (dir_files opts entries))))
                  (sum_list (map fst (drop (nat (top_files_per_dir opts)) (dir_files opts entries))))]
          else [])"
    "list_all2 (\<lambda>e d. is_dir d \<and> node_path d = fst e) (subdirs opts entries) D"
    "mset H = mset (take (nat (top_files_per_dir opts)) (dir_files opts entries))"
    "node_size n = sum_list (map fst (dir_files opts entries)) + sum_list (map node_size D)"
    using retained_without_displacement[OF nc nd sd] by blast
  then show "\<exists>D H.
           children n
             = D @ map (\<lambda>(sz, nm, pth). Node nm pth False sz []) (sort_key (\<lambda>x. - fst x) H) @
               (if 0 < sum_list (map fst (drop (nat (top_files_per_dir opts)) (dir_files opts entries)))
                then [Node (other_files_prefix @
                              str_int (int (length (drop (nat (top_files_per_dir opts))
                                                      (dir_files opts entries)))) @ '')'')
                        p False
                        (sum_list (map fst (drop (nat (top_files_per_dir opts)) (dir_files opts entries))))
                        []]
                else []) \<and>
           list_all2 (\<lambda>e d. is_dir d \<and> node_path d = fst e) (subdirs opts entries) D \<and>
           mset H = mset (take (nat (top_files_per_dir opts)) (dir_files opts entries)) \<and>
           node_size n = sum_list (map fst (dir_files opts entries)) + sum_list (map node_size D)"
    unfolding fn other_files_node_def by blast
qed

theorem overflow_without_displacement_witness:
  "never_cancels default_opts \<and>
   no_displacement (nat (top_files_per_dir default_opts)) (dir_files default_opts hundred_files) \<and>
   (\<exists>n s'.
      scan_dir (posix nothing_exists) default_opts ''/d'' (Scandir hundred_files False) sample_state
        = Inr (n, s') \<and>
      children n
        = map (\<lambda>(sz, nm, pth). Node nm pth False sz []) (take 80 (dir_files default_opts hundred_files)) @
          [Node (other_files_prefix @ ''20)'') ''/d'' False 210 []] \<and>
      length (take 80 (dir_files default_opts hundred_files)) = 80 \<and>
      node_size n = 5050)"
proof -
  let ?fs = "dir_files default_opts hundred_files"
  have k: "nat (top_files_per_dir default_opts) = 80"
    by (simp add: default_opts_def DEFAULT_TOP_FILES_PER_DIR_def)
  note sizes = sizes_hundred_files
  have 1: "never_cancels default_opts"
    by (simp add: never_cancels_def default_opts_def)
  have "\<forall>x \<in> set (drop 80 (rev [1..100 :: int])). \<forall>y \<in> set (take 80 (rev [1..100])). x \<le> y"
    by code_simp
  then have 2: "no_displacement (nat (top_files_per_dir default_opts)) ?fs"
    unfolding k no_displacement_sizes sizes .
  have sd: "subdirs default_opts hundred_files = []"
    by (simp add: hundred_files_def subdirs_file_entries)
  have "sum_list (rev [1..100 :: int]) = 5050"
    by code_simp
  then have tot: "sum_list (map fst ?fs) = 5050"
    unfolding sizes .
  have "sum_list (drop 80 (rev [1..100 :: int])) = 210"
    by code_simp
  then have rest: "sum_list (map fst (drop 80 ?fs)) = 210"
    unfolding drop_map[symmetric] sizes .
  have "length (drop 80 (rev [1..100 :: int])) = 20" "length (take 80 (rev [1..100 :: int])) = 80"
    by code_simp+
  then have cnt: "length (drop 80 ?fs) = 20" and kept: "length (take 80 ?fs) = 80"
    unfolding sizes[symmetric] by (simp_all only: length_map length_drop length_take)
  have "sorted (map uminus (take 80 (rev [1..100 :: int])))"
    "distinct (map uminus (take 80 (rev [1..100 :: int])))"
    by code_simp+
  then have srt: "sorted (map (\<lambda>x. - fst x) (take 80 ?fs))"
    and dst: "distinct (map (\<lambda>x. - fst x) (take 80 ?fs))"
    unfolding sizes[symmetric] take_map map_map comp_def by simp_all
  obtain n s' where 3:
    "scan_dir (posix nothing_exists) default_opts ''/d'' (Scandir hundred_files False) sample_state
       = Inr (n, s')"
    using scan_total(1) by blast
  have "never_cancels default_opts \<and> Scandir hundred_files False = Scandir hundred_files False \<and>
      no_displacement (nat (top_files_per_dir default_opts)) ?fs"
    using 1 2 by simp
  then obtain D H where c:
    "children n
       = D @ map (\<lambda>(sz, nm, pth). Node nm pth False sz []) (sort_key (\<lambda>x. - fst x) H) @
         (if 0 < sum_list (map fst (drop 80 ?fs))
          then [Node (other_files_prefix @ str_int (int (length (drop 80 ?fs))) @ '')'')
                  ''/d'' False (sum_list (map fst (drop 80 ?fs))) []]
          else [])"
    "list_all2 (\<lambda>e d. is_dir d \<and> node_path d = fst e) (subdirs default_opts hundred_files) D"
    "mset H = mset (take 80 ?fs)"
    "node_size n = sum_list (map fst ?fs) + sum_list (map node_size D)"
    using overflow_without_displacement [OF 3, of hundred_files] unfolding k by blast
  have D: "D = []" using c(2) unfolding sd by simp
  have "inj_on (\<lambda>x. - fst x) (set (take 80 ?fs))"
    using dst by (simp add: distinct_map)
  then have "inj_on (\<lambda>x. - fst x) (set H)"
    using c(3) by (metis mset_eq_setD)
  then have H: "sort_key (\<lambda>x. - fst x) H = take 80 ?fs"
    using c(3) srt by (intro sort_key_inj_key_eq) simp_all
  have s20: "str_int 20 = ''20''"
    by code_simp
  have ch: "children n
        = map (\<lambda>(sz, nm, pth). Node nm pth False sz []) (take 80 ?fs) @
          [Node (other_files_prefix @ ''20)'') ''/d'' False 210 []]"
    unfolding c(1) D H rest cnt by (simp add: s20)
  have sz: "node_size n = 5050" unfolding c(4) D tot by simp
  show ?thesis using 1 2 3 ch kept sz by blast
qed

end
